theory Spec2Isabelle
  imports
    Main
    "HOL-Library.Word"
    "HOL-Library.Char_ord"
    "HOL-Library.List_Lexorder"
begin

unbundle bit_operations_syntax

section \<open>The Latin-1 to UTF-8 transcoder (fileISO8859-1.go)\<close>

text \<open>
  Go's \<open>byte\<close> is an 8-bit word. The underlying \<open>*os.File\<close> is a regular file: its
  contents and the current offset. Go errors are values; a run-time panic (an index out of
  range) is a value of its own, \<open>Inl\<close> of the result.
\<close>

type_synonym byte = "8 word"

datatype error = EOF | OtherError

datatype panic = IndexOutOfRange | BadDegree

record File =
  contents :: "byte list"
  offset :: nat

text \<open>
  \<open>os.File.Read(b)\<close> on a regular file: copies \<open>min (len b) remaining\<close> bytes into the
  front of \<open>b\<close>, advances the offset, and returns \<open>io.EOF\<close> exactly when nothing was read
  although \<open>len b > 0\<close>.
\<close>

definition file_Read :: "File \<Rightarrow> byte list \<Rightarrow> File \<times> byte list \<times> nat \<times> error option" where
  "file_Read f b =
     (let n = min (length b) (length (contents f) - offset f);
          b' = take n (drop (offset f) (contents f)) @ drop n b
      in (f\<lparr>offset := offset f + n\<rparr>, b', n,
          if n = 0 \<and> 0 < length b then Some EOF else None))"

text \<open>
  \<open>os.File.Seek(d, 1)\<close>: moves the offset by \<open>d\<close> relative to the current one; a
  negative target is refused (the transcoder ignores Seek's results).
\<close>

definition file_Seek :: "File \<Rightarrow> int \<Rightarrow> File" where
  "file_Seek f d = (if 0 \<le> int (offset f) + d then f\<lparr>offset := nat (int (offset f) + d)\<rparr> else f)"

record fileLatin1Reader =
  file_of :: File
  currentChar :: byte

text \<open>
  The conversion loop of \<open>Read\<close> (\<open>for i = 0; i<n; i++\<close>), as a recursion on \<open>i\<close>. It
  returns the final \<open>i\<close>, the caller's buffer, \<open>nb_written\<close> and \<open>currentChar\<close>.
\<close>

function Read_loop ::
  "byte list \<Rightarrow> nat \<Rightarrow> nat \<Rightarrow> byte list \<Rightarrow> nat \<Rightarrow> byte \<Rightarrow> nat \<times> byte list \<times> nat \<times> byte" where
  "Read_loop buf n i p nb_written cc =
     (if i < n then
        (if nb_written \<ge> length p then (i, p, nb_written, cc)
         else if buf ! i < 0x80 then
           Read_loop buf n (i + 1) (p[nb_written := buf ! i]) (nb_written + 1) cc
         else
           (let p1 = p[nb_written := 0xC0 OR drop_bit 6 (buf ! i AND 0xC0)];
                nb1 = nb_written + 1
            in if nb1 \<ge> length p then
                 Read_loop buf n (i + 1) p1 nb1 (0x80 OR (buf ! i AND 0x3f))
               else
                 Read_loop buf n (i + 1) (p1[nb1 := 0x80 OR (buf ! i AND 0x3f)]) (nb1 + 1) cc))
      else (i, p, nb_written, cc))"
  by pat_completeness auto
termination
  by (relation "measure (\<lambda>(buf, n, i, p, nb, cc). n - i)") auto

text \<open>
  \<open>fileLatin1Reader.Read(p)\<close>. The result is the reader after the call, the caller's
  buffer \<open>p\<close> after the call, the returned count and the returned error. Writing the
  pending byte at \<open>p[0]\<close> panics when \<open>p\<close> is empty.
\<close>

definition Read ::
  "fileLatin1Reader \<Rightarrow> byte list \<Rightarrow> panic + (fileLatin1Reader \<times> byte list \<times> nat \<times> error option)" where
  "Read flr p =
     (let (f1, buf, n, err) = file_Read (file_of flr) (replicate (length p) 0)
      in if currentChar flr \<noteq> 0 \<and> length p = 0 then Inl IndexOutOfRange
         else
           (let (p0, nb0, cc0) =
                  (if currentChar flr \<noteq> 0 then (p[0 := currentChar flr], 1, 0)
                   else (p, 0, currentChar flr));
                (i, p1, nb_written, cc1) = Read_loop buf n 0 p0 nb0 cc0;
                f2 = file_Seek f1 (int i - int n)
            in Inr (\<lparr>file_of = f2, currentChar = cc1\<rparr>, p1, nb_written,
                    if err = Some EOF \<and> cc1 \<noteq> 0 then None else err)))"

text \<open>
  The work left for the reader: two units for every source byte not yet consumed, one for
  a pending byte. It bounds the number of calls in \<open>read_loop\<close> below.
\<close>

definition remaining :: "fileLatin1Reader \<Rightarrow> nat" where
  "remaining flr =
     2 * (length (contents (file_of flr)) - offset (file_of flr)) + (if currentChar flr = 0 then 0 else 1)"

text \<open>
  The reference expansion, in the specification's words: a byte below \<open>0x80\<close> passes
  through unchanged, a byte from \<open>0x80\<close> on becomes the two bytes
  \<open>0xC0 | (b & 0xC0) >> 6\<close> and \<open>0x80 | (b & 0x3F)\<close>.
\<close>

definition expand :: "byte \<Rightarrow> byte list" where
  "expand b = (if b < 0x80 then [b] else [0xC0 OR drop_bit 6 (b AND 0xC0), 0x80 OR (b AND 0x3f)])"

definition latin1_to_utf8 :: "byte list \<Rightarrow> byte list" where
  "latin1_to_utf8 bs = concat (map expand bs)"

text \<open>
  The pending byte as a stream: nothing when the field holds the idle value \<open>0\<close>.
  \<open>emitted\<close> is what one call has produced so far, the byte kept for later included.
\<close>

definition pending :: "byte \<Rightarrow> byte list" where
  "pending c = (if c = 0 then [] else [c])"

definition emitted :: "byte list \<Rightarrow> nat \<Rightarrow> byte \<Rightarrow> byte list" where
  "emitted p nb cc = take nb p @ pending cc"

subsection \<open>The conversion loop\<close>

lemma second_byte_ge: "(0x80 :: byte) \<le> 0x80 OR (b AND 0x3f)"
  by (rule le_word_or2)

lemma second_byte_disjoint: "(0x80 :: byte) AND (b AND 0x3f) = 0"
proof -
  have "(0x80 :: byte) AND (b AND 0x3f) = (0x80 AND 0x3f) AND b"
    by (simp add: ac_simps)
  then show ?thesis by simp
qed

lemma second_byte_le: "(0x80 :: byte) OR (b AND 0x3f) \<le> 0xBF"
proof -
  have e: "(0x80 :: byte) OR (b AND 0x3f) = 0x80 + (b AND 0x3f)"
    using disjunctive_add_eq_or [OF second_byte_disjoint, of b] by simp
  have "b AND 0x3f \<le> 0x3f" by (rule word_and_le1)
  then have "(0x80 :: byte) + (b AND 0x3f) \<le> 0x80 + 0x3f"
    by (rule word_plus_mono_right) simp
  then show ?thesis by (simp add: e)
qed

lemma second_byte_nz: "(0x80 :: byte) OR (b AND 0x3f) \<noteq> 0"
proof
  assume "(0x80 :: byte) OR (b AND 0x3f) = 0"
  with second_byte_ge [of b] show False by simp
qed

lemma latin1_drop_step:
  "i < length B \<Longrightarrow> latin1_to_utf8 (drop i B) = expand (B ! i) @ latin1_to_utf8 (drop (Suc i) B)"
  by (simp add: latin1_to_utf8_def flip: Cons_nth_drop_Suc)

lemma take_update_last: "nb < length p \<Longrightarrow> take (Suc nb) (p[nb := x]) = take nb p @ [x]"
  by (simp add: take_Suc_conv_app_nth)

lemma take_update_two:
  "Suc nb < length p \<Longrightarrow> take (Suc (Suc nb)) (p[nb := x, Suc nb := y]) = take nb p @ [x, y]"
  by (simp add: take_Suc_conv_app_nth nth_list_update)

declare Read_loop.simps [simp del]

lemma Read_loop_stop:
  "\<not> (i < n \<and> nb < length p) \<Longrightarrow> Read_loop buf n i p nb cc = (i, p, nb, cc)"
  by (subst Read_loop.simps) auto

lemma Read_loop_ascii:
  "i < n \<Longrightarrow> nb < length p \<Longrightarrow> buf ! i < 0x80 \<Longrightarrow>
   Read_loop buf n i p nb cc = Read_loop buf n (Suc i) (p[nb := buf ! i]) (Suc nb) cc"
  by (subst Read_loop.simps) simp

lemma Read_loop_split:
  "i < n \<Longrightarrow> nb < length p \<Longrightarrow> \<not> buf ! i < 0x80 \<Longrightarrow> length p \<le> Suc nb \<Longrightarrow>
   Read_loop buf n i p nb cc =
   Read_loop buf n (Suc i) (p[nb := 0xC0 OR drop_bit 6 (buf ! i AND 0xC0)]) (Suc nb)
     (0x80 OR (buf ! i AND 0x3f))"
  by (subst Read_loop.simps) (simp add: Let_def)

lemma Read_loop_both:
  "i < n \<Longrightarrow> nb < length p \<Longrightarrow> \<not> buf ! i < 0x80 \<Longrightarrow> \<not> length p \<le> Suc nb \<Longrightarrow>
   Read_loop buf n i p nb cc =
   Read_loop buf n (Suc i)
     (p[nb := 0xC0 OR drop_bit 6 (buf ! i AND 0xC0), Suc nb := 0x80 OR (buf ! i AND 0x3f)])
     (Suc (Suc nb)) cc"
  by (subst Read_loop.simps) (simp add: Let_def)

lemma Read_loop_cases [consumes 0, case_names stop ascii split both]:
  fixes buf :: "byte list"
  assumes "\<not> (i < n \<and> nb < length p) \<Longrightarrow> P"
    and "i < n \<Longrightarrow> nb < length p \<Longrightarrow> buf ! i < 0x80 \<Longrightarrow> P"
    and "i < n \<Longrightarrow> nb < length p \<Longrightarrow> \<not> buf ! i < 0x80 \<Longrightarrow> length p \<le> Suc nb \<Longrightarrow> P"
    and "i < n \<Longrightarrow> nb < length p \<Longrightarrow> \<not> buf ! i < 0x80 \<Longrightarrow> \<not> length p \<le> Suc nb \<Longrightarrow> P"
  shows P
  using assms by blast

lemma Read_loop_bounds:
  "nb \<le> length p \<Longrightarrow> i \<le> n \<Longrightarrow> Read_loop buf n i p nb cc = (i', p', nb', cc') \<Longrightarrow>
   i \<le> i' \<and> i' \<le> n \<and> nb \<le> nb' \<and> nb' \<le> length p \<and> length p' = length p"
proof (induction buf n i p nb cc rule: Read_loop.induct)
  case (1 buf n i p nb cc)
  show ?case
  proof (cases rule: Read_loop_cases [where i=i and n=n and nb=nb and p=p and buf=buf])
    case stop
    with "1.prems" show ?thesis by (simp add: Read_loop_stop)
  next
    case ascii
    with "1.prems" "1.IH"(1) show ?thesis by (force simp: Read_loop_ascii)
  next
    case split
    with "1.prems" "1.IH"(2) [OF _ _ _ refl refl] show ?thesis
      by (force simp: Read_loop_split)
  next
    case both
    with "1.prems" "1.IH"(3) [OF _ _ _ refl refl] show ?thesis
      by (force simp: Read_loop_both)
  qed
qed


lemma pending_zero [simp]: "pending 0 = []"
  by (simp add: pending_def)

lemma pending_second [simp]: "pending (0x80 OR (b AND 0x3f)) = [0x80 OR (b AND 0x3f)]"
  by (simp add: pending_def second_byte_nz)

lemma Read_loop_stream:
  "nb \<le> length p \<Longrightarrow> cc = 0 \<or> length p \<le> nb \<Longrightarrow> i \<le> n \<Longrightarrow> n \<le> length buf \<Longrightarrow>
   Read_loop buf n i p nb cc = (i', p', nb', cc') \<Longrightarrow>
   emitted p' nb' cc' @ latin1_to_utf8 (drop i' (take n buf)) =
   emitted p nb cc @ latin1_to_utf8 (drop i (take n buf))"
proof (induction buf n i p nb cc rule: Read_loop.induct)
  case (1 buf n i p nb cc)
  show ?case
  proof (cases rule: Read_loop_cases [where i=i and n=n and nb=nb and p=p and buf=buf])
    case stop
    with "1.prems" show ?thesis by (simp add: Read_loop_stop)
  next
    case ascii
    then have c0: "cc = 0" using "1.prems" by auto
    from ascii "1.prems" have
      "emitted p' nb' cc' @ latin1_to_utf8 (drop i' (take n buf)) =
       emitted (p[nb := buf ! i]) (nb + 1) cc @ latin1_to_utf8 (drop (i + 1) (take n buf))"
      by (intro "1.IH"(1)) (auto simp: Read_loop_ascii)
    also have "\<dots> = emitted p nb cc @ latin1_to_utf8 (drop i (take n buf))"
      using ascii "1.prems" c0
      by (simp add: emitted_def pending_def latin1_drop_step take_update_last expand_def)
    finally show ?thesis .
  next
    case split
    then have c0: "cc = 0" using "1.prems" by auto
    from split have
      "Read_loop buf n i p nb cc =
       (Suc i, p[nb := 0xC0 OR drop_bit 6 (buf ! i AND 0xC0)], Suc nb, 0x80 OR (buf ! i AND 0x3f))"
      by (simp add: Read_loop_split Read_loop_stop)
    with "1.prems"(5) have "i' = Suc i" "p' = p[nb := 0xC0 OR drop_bit 6 (buf ! i AND 0xC0)]"
      "nb' = Suc nb" "cc' = 0x80 OR (buf ! i AND 0x3f)"
      by simp_all
    with "1.prems"(1-4) split c0 show ?thesis
      by (simp add: emitted_def latin1_drop_step take_update_last expand_def del: take_all)
  next
    case both
    then have c0: "cc = 0" using "1.prems" by auto
    from both "1.prems" have
      "emitted p' nb' cc' @ latin1_to_utf8 (drop i' (take n buf)) =
       emitted (p[nb := 0xC0 OR drop_bit 6 (buf ! i AND 0xC0), nb + 1 := 0x80 OR (buf ! i AND 0x3f)])
         (nb + 1 + 1) cc @ latin1_to_utf8 (drop (i + 1) (take n buf))"
      by (intro "1.IH"(3) [OF _ _ _ refl refl]) (auto simp: Read_loop_both)
    also have "\<dots> = emitted p nb cc @ latin1_to_utf8 (drop i (take n buf))"
      using both "1.prems" c0
      by (simp add: emitted_def pending_def latin1_drop_step take_update_two expand_def)
    finally show ?thesis .
  qed
qed

lemma Read_loop_pending:
  "nb \<le> length p \<Longrightarrow> Read_loop buf n i p nb cc = (i', p', nb', cc') \<Longrightarrow> cc = 0 \<Longrightarrow> cc' \<noteq> 0 \<Longrightarrow>
   i < i' \<and> \<not> buf ! (i' - 1) < 0x80 \<and> cc' = 0x80 OR (buf ! (i' - 1) AND 0x3f) \<and> nb' = length p"
proof (induction buf n i p nb cc rule: Read_loop.induct)
  case (1 buf n i p nb cc)
  show ?case
  proof (cases rule: Read_loop_cases [where i=i and n=n and nb=nb and p=p and buf=buf])
    case stop
    with "1.prems" show ?thesis by (simp add: Read_loop_stop)
  next
    case ascii
    with "1.prems" have "i + 1 < i' \<and> \<not> buf ! (i' - 1) < 0x80 \<and>
        cc' = 0x80 OR (buf ! (i' - 1) AND 0x3f) \<and> nb' = length (p[nb := buf ! i])"
      by (intro "1.IH"(1)) (auto simp: Read_loop_ascii)
    then show ?thesis by simp
  next
    case split
    from split have
      "Read_loop buf n i p nb cc =
       (Suc i, p[nb := 0xC0 OR drop_bit 6 (buf ! i AND 0xC0)], Suc nb, 0x80 OR (buf ! i AND 0x3f))"
      by (simp add: Read_loop_split Read_loop_stop)
    with "1.prems"(2) have "i' = Suc i" "nb' = Suc nb" "cc' = 0x80 OR (buf ! i AND 0x3f)"
      by simp_all
    with split show ?thesis by simp
  next
    case both
    with "1.prems" have "i + 1 < i' \<and> \<not> buf ! (i' - 1) < 0x80 \<and>
        cc' = 0x80 OR (buf ! (i' - 1) AND 0x3f) \<and>
        nb' = length (p[nb := 0xC0 OR drop_bit 6 (buf ! i AND 0xC0), nb + 1 := 0x80 OR (buf ! i AND 0x3f)])"
      by (intro "1.IH"(3) [OF _ _ _ refl refl]) (auto simp: Read_loop_both)
    then show ?thesis by simp
  qed
qed

lemma Read_loop_progress:
  assumes "i < n" "nb < length p" "Read_loop buf n i p nb cc = (i', p', nb', cc')"
  shows "i < i'"
proof (cases rule: Read_loop_cases [where i=i and n=n and nb=nb and p=p and buf=buf])
  case stop
  with assms show ?thesis by simp
next
  case ascii
  with assms have "Read_loop buf n (Suc i) (p[nb := buf ! i]) (Suc nb) cc = (i', p', nb', cc')"
    by (simp add: Read_loop_ascii)
  from Read_loop_bounds [OF _ _ this] assms show ?thesis by simp
next
  case split
  with assms show ?thesis by (simp add: Read_loop_split Read_loop_stop)
next
  case both
  with assms have "Read_loop buf n (Suc i)
     (p[nb := 0xC0 OR drop_bit 6 (buf ! i AND 0xC0), Suc nb := 0x80 OR (buf ! i AND 0x3f)])
     (Suc (Suc nb)) cc = (i', p', nb', cc')"
    by (simp add: Read_loop_both)
  from Read_loop_bounds [OF _ _ this] assms both show ?thesis by simp
qed


lemma latin1_append [simp]: "latin1_to_utf8 (xs @ ys) = latin1_to_utf8 xs @ latin1_to_utf8 ys"
  by (simp add: latin1_to_utf8_def)

lemma latin1_take_drop: "latin1_to_utf8 (take i xs) @ latin1_to_utf8 (drop i xs) = latin1_to_utf8 xs"
  by (simp flip: latin1_append)

subsection \<open>One call of Read\<close>

text \<open>
  What one returning call establishes: the file contents are untouched, the offset moves
  forward by the number of source bytes consumed, the bytes written plus the byte kept are
  the byte kept before plus the expansion of the consumed bytes, \<open>io.EOF\<close> is returned
  exactly when the file had nothing left, a byte is kept only when the buffer is full, and
  the call makes progress whenever there is room and input.
\<close>

definition Read_post ::
  "fileLatin1Reader \<Rightarrow> byte list \<Rightarrow> fileLatin1Reader \<Rightarrow> byte list \<Rightarrow> nat \<Rightarrow> error option \<Rightarrow> bool" where
  "Read_post flr p flr' p' k err \<longleftrightarrow>
     (let C = contents (file_of flr); off = offset (file_of flr); off' = offset (file_of flr');
          cc = currentChar flr; cc' = currentChar flr'
      in contents (file_of flr') = C \<and> off \<le> off' \<and> off' - off \<le> length C - off \<and>
         off' - off \<le> length p \<and> k \<le> length p \<and> length p' = length p \<and>
         take k p' @ pending cc' = pending cc @ latin1_to_utf8 (take (off' - off) (drop off C)) \<and>
         err = (if length C \<le> off \<and> 0 < length p then Some EOF else None) \<and>
         (cc' \<noteq> 0 \<longrightarrow> k = length p \<and> off < off' \<and> \<not> C ! (off' - 1) < 0x80 \<and>
            cc' = 0x80 OR (C ! (off' - 1) AND 0x3f)) \<and>
         (off < length C \<and> (if cc = 0 then 0 else 1) < length p \<longrightarrow> off < off'))"

lemma Read_correct:
  assumes ok: "0 < length p \<or> currentChar flr = 0"
  shows "\<exists>flr' p' k err. Read flr p = Inr (flr', p', k, err) \<and> Read_post flr p flr' p' k err"
proof -
  define C where "C = contents (file_of flr)"
  define off where "off = offset (file_of flr)"
  define cc where "cc = currentChar flr"
  define n where "n = min (length p) (length C - off)"
  define buf where "buf = take n (drop off C) @ drop n (replicate (length p) (0::byte))"
  define p0 where "p0 = (if cc \<noteq> 0 then p[0 := cc] else p)"
  define nb0 :: nat where "nb0 = (if cc \<noteq> 0 then 1 else 0)"
  obtain i p1 nb cc1 where L: "Read_loop buf n 0 p0 nb0 0 = (i, p1, nb, cc1)"
    by (metis prod_cases4)
  have lenbuf: "length buf = length p" "n \<le> length buf"
    by (auto simp: buf_def n_def)
  have nb0: "nb0 \<le> length p0" "length p0 = length p"
    using ok by (cases p; auto simp: nb0_def p0_def cc_def)+
  from Read_loop_bounds [OF nb0(1) _ L]
  have B: "i \<le> n" "nb0 \<le> nb" "nb \<le> length p" "length p1 = length p"
    using nb0 by auto
  have cc1: "n = 0 \<Longrightarrow> cc1 = 0"
    using L by (simp add: Read_loop_stop)
  define flr' where
    "flr' = \<lparr>file_of = (file_of flr)\<lparr>offset := off + i\<rparr>, currentChar = cc1\<rparr>"
  define err where "err = (if n = 0 \<and> 0 < length p then Some EOF else None)"
  have FR: "file_Read (file_of flr) (replicate (length p) 0) =
      ((file_of flr)\<lparr>offset := off + n\<rparr>, buf, n, err)"
    by (simp add: file_Read_def Let_def err_def C_def off_def n_def buf_def)
  have SK: "file_Seek ((file_of flr)\<lparr>offset := off + n\<rparr>) (int i - int n) =
      (file_of flr)\<lparr>offset := off + i\<rparr>"
    using B(1) by (simp add: file_Seek_def)
  have L': "Read_loop buf n 0 (if currentChar flr \<noteq> 0 then p[0 := currentChar flr] else p)
      (if currentChar flr \<noteq> 0 then 1 else 0) 0 = (i, p1, nb, cc1)"
    using L unfolding p0_def nb0_def cc_def by (simp split: if_splits)
  have E: "(if err = Some EOF \<and> cc1 \<noteq> 0 then None else err) = err"
    using cc1 by (simp add: err_def)
  have R: "Read flr p = Inr (flr', p1, nb, err)"
  proof (cases "currentChar flr = 0")
    case True
    with L' show ?thesis
      by (simp add: Read_def FR SK E flr'_def)
  next
    case False
    with ok L' show ?thesis
      by (simp add: Read_def FR SK E flr'_def)
  qed
  have tb: "take n buf = take n (drop off C)"
    by (simp add: buf_def n_def)
  have e0: "emitted p0 nb0 0 = pending cc"
    using ok by (cases p) (auto simp: emitted_def p0_def nb0_def pending_def cc_def)
  from Read_loop_stream [OF nb0(1) _ _ lenbuf(2) L]
  have "emitted p1 nb cc1 @ latin1_to_utf8 (drop i (take n buf)) =
        pending cc @ latin1_to_utf8 (take n buf)"
    by (simp add: e0)
  also have "latin1_to_utf8 (take n buf) =
      latin1_to_utf8 (take i (take n buf)) @ latin1_to_utf8 (drop i (take n buf))"
    by (simp only: latin1_take_drop)
  finally have S: "take nb p1 @ pending cc1 = pending cc @ latin1_to_utf8 (take i (drop off C))"
    using B(1) by (simp add: emitted_def tb min_absorb1)
  have P: "cc1 \<noteq> 0 \<Longrightarrow> nb = length p \<and> 0 < i \<and> \<not> C ! (off + i - 1) < 0x80 \<and>
      cc1 = 0x80 OR (C ! (off + i - 1) AND 0x3f)"
  proof -
    assume "cc1 \<noteq> 0"
    from Read_loop_pending [OF nb0(1) L refl this]
    have *: "0 < i" "\<not> buf ! (i - 1) < 0x80" "cc1 = 0x80 OR (buf ! (i - 1) AND 0x3f)" "nb = length p"
      using nb0 by auto
    have "buf ! (i - 1) = C ! (off + i - 1)"
      using * B(1) by (auto simp: buf_def n_def nth_append)
    with * show ?thesis by simp
  qed
  have G: "off < length C \<Longrightarrow> nb0 < length p \<Longrightarrow> 0 < i"
    using Read_loop_progress [OF _ _ L] nb0 by (cases p) (auto simp: n_def)
  have Err: "err = (if length C \<le> off \<and> 0 < length p then Some EOF else None)"
    by (cases p) (auto simp: err_def n_def min_def)
  have B1: "i \<le> length C - off" "i \<le> length p"
    using B(1) by (simp_all add: n_def)
  have "Read_post flr p flr' p1 nb err"
    unfolding Read_post_def Let_def
    using B(3,4) B1 S P G Err
    by (auto simp: flr'_def nb0_def simp flip: C_def off_def cc_def)
  with R show ?thesis by blast
qed


lemma Read_Inr_ok: "Read flr p = Inr r \<Longrightarrow> 0 < length p \<or> currentChar flr = 0"
  by (auto simp: Read_def Let_def split: prod.splits if_splits)

lemma Read_establishes: "Read flr p = Inr (flr', p', k, err) \<Longrightarrow> Read_post flr p flr' p' k err"
  using Read_correct [OF Read_Inr_ok, of flr p] by auto

lemma Read_decreases:
  assumes "Read flr p = Inr (flr', p', k, err)" "0 < k" "err = None"
  shows "remaining flr' < remaining flr"
proof -
  from Read_establishes [OF assms(1)] have P: "Read_post flr p flr' p' k err" .
  from P assms(2,3) have lt: "offset (file_of flr) < length (contents (file_of flr))" "0 < length p"
    by (auto simp: Read_post_def Let_def split: if_splits)
  show ?thesis
  proof (cases "offset (file_of flr) < offset (file_of flr')")
    case True
    with P show ?thesis
      by (auto simp: Read_post_def Let_def remaining_def)
  next
    case False
    with P lt have "currentChar flr \<noteq> 0" "currentChar flr' = 0"
      "offset (file_of flr') = offset (file_of flr)" "contents (file_of flr') = contents (file_of flr)"
      by (auto simp: Read_post_def Let_def split: if_splits)
    then show ?thesis by (simp add: remaining_def)
  qed
qed

subsection \<open>Reading a whole file\<close>

text \<open>
  The reading loop of \<open>TestLatin1Reader\<close> (geoip.go), for any buffer:
  \<open>for n, err := flr.Read(buf); n>0; n, err = flr.Read(buf)\<close>, appending \<open>buf[:n]\<close> and
  leaving the loop at the first error. It returns the reader and the bytes collected.
\<close>

function read_loop ::
  "fileLatin1Reader \<Rightarrow> byte list \<Rightarrow> byte list \<Rightarrow> panic + (fileLatin1Reader \<times> byte list)" where
  "read_loop flr buf read_sample =
     (case Read flr buf of
        Inl e \<Rightarrow> Inl e
      | Inr (flr', buf', n, err) \<Rightarrow>
          if 0 < n then
            (let read_sample' = read_sample @ take n buf'
             in if err \<noteq> None then Inr (flr', read_sample')
                else read_loop flr' buf' read_sample')
          else Inr (flr', read_sample))"
  by pat_completeness auto
termination
  by (relation "measure (\<lambda>(flr, buf, rs). remaining flr)") (auto intro: Read_decreases)

declare read_loop.simps [simp del]

lemma latin1_Nil_iff [simp]: "latin1_to_utf8 xs = [] \<longleftrightarrow> xs = []"
  by (cases xs) (auto simp: latin1_to_utf8_def expand_def)

lemma read_loop_correct:
  "0 < length buf \<Longrightarrow>
   \<exists>flr'. read_loop flr buf rs =
     Inr (flr', rs @ pending (currentChar flr) @
                latin1_to_utf8 (drop (offset (file_of flr)) (contents (file_of flr)))) \<and>
     currentChar flr' = 0"
proof (induction flr buf rs rule: read_loop.induct)
  case (1 flr buf rs)
  define C where "C = contents (file_of flr)"
  define off where "off = offset (file_of flr)"
  from Read_correct [of buf flr] "1.prems"
  obtain flr' p' k err where R: "Read flr buf = Inr (flr', p', k, err)"
    and P: "Read_post flr buf flr' p' k err" by blast
  define off' where "off' = offset (file_of flr')"
  from P have C': "contents (file_of flr') = C" and le: "off \<le> off'" "off' - off \<le> length C - off"
    and len: "k \<le> length buf" "length p' = length buf"
    and S: "take k p' @ pending (currentChar flr') =
            pending (currentChar flr) @ latin1_to_utf8 (take (off' - off) (drop off C))"
    and E: "err = (if length C \<le> off \<and> 0 < length buf then Some EOF else None)"
    and Pd: "currentChar flr' \<noteq> 0 \<Longrightarrow> k = length buf \<and> off < off'"
    and G: "off < length C \<Longrightarrow> (if currentChar flr = 0 then 0 else 1) < length buf \<Longrightarrow> off < off'"
    by (auto simp: Read_post_def Let_def C_def off_def off'_def)
  show ?case
  proof (cases "0 < k")
    case False
    then have k0: "k = 0" by simp
    with Pd "1.prems" have c0: "currentChar flr' = 0" by auto
    with S k0 have pc: "pending (currentChar flr) = []" and t: "take (off' - off) (drop off C) = []"
      by auto
    from pc have "currentChar flr = 0" by (simp add: pending_def split: if_splits)
    with G "1.prems" t le have "length C \<le> off" by (cases "off < length C") auto
    with R k0 c0 pc show ?thesis
      by (simp add: read_loop.simps [of flr] C_def off_def)
  next
    case True
    show ?thesis
    proof (cases "err = None")
      case False
      with E have eof: "length C \<le> off" by (auto split: if_splits)
      with le Pd have c0: "currentChar flr' = 0" by auto
      with S eof have "take k p' = pending (currentChar flr)" by simp
      with R True False c0 eof show ?thesis
        by (simp add: read_loop.simps [of flr] C_def off_def)
    next
      case None: True
      from "1.IH" [OF R refl refl refl True refl] None len "1.prems"
      obtain flr'' where I: "read_loop flr' p' (rs @ take k p') =
          Inr (flr'', (rs @ take k p') @ pending (currentChar flr') @
             latin1_to_utf8 (drop off' C))" and c0: "currentChar flr'' = 0"
        by (auto simp: C' off'_def)
      have D: "drop off' C = drop (off' - off) (drop off C)"
        using le by simp
      have "take k p' @ pending (currentChar flr') @ latin1_to_utf8 (drop off' C) =
          (take k p' @ pending (currentChar flr')) @ latin1_to_utf8 (drop off' C)"
        by simp
      also have "\<dots> = (pending (currentChar flr) @ latin1_to_utf8 (take (off' - off) (drop off C))) @
          latin1_to_utf8 (drop (off' - off) (drop off C))"
        by (simp only: S D)
      also have "\<dots> = pending (currentChar flr) @ latin1_to_utf8 (drop off C)"
        by (simp only: append_assoc latin1_take_drop)
      finally have "take k p' @ pending (currentChar flr') @ latin1_to_utf8 (drop off' C) =
          pending (currentChar flr) @ latin1_to_utf8 (drop off C)" .
      with I c0 R True None show ?thesis
        by (simp add: read_loop.simps [of flr] C_def off_def)
    qed
  qed
qed



text \<open>
  \<open>TestLatin1Reader\<close>: a fresh reader (\<open>&fileLatin1Reader{ file: file }\<close>, so
  \<open>currentChar = 0\<close>) on a file holding \<open>sample\<close>, read to the end with the buffer
  \<open>buf\<close>; the result is \<open>read_sample\<close>.
\<close>

definition TestLatin1Reader :: "byte list \<Rightarrow> byte list \<Rightarrow> panic + byte list" where
  "TestLatin1Reader sample buf =
     (case read_loop \<lparr>file_of = \<lparr>contents = sample, offset = 0\<rparr>, currentChar = 0\<rparr> buf [] of
        Inl e \<Rightarrow> Inl e
      | Inr (flr', read_sample) \<Rightarrow> Inr read_sample)"

lemma TestLatin1Reader_correct:
  "0 < length buf \<Longrightarrow> TestLatin1Reader sample buf = Inr (latin1_to_utf8 sample)"
  using read_loop_correct [of buf "\<lparr>file_of = \<lparr>contents = sample, offset = 0\<rparr>, currentChar = 0\<rparr>" "[]"]
  by (auto simp: TestLatin1Reader_def)


subsection \<open>Claims about the transcoder\<close>

text \<open>
  C2: for every source byte sequence and every destination buffer of at least one byte,
  the concatenated output of the repeated Read calls is the per-byte reference expansion of
  the whole source, so two buffer sizes give the same output.
\<close>

theorem transcoder_buffer_independent:
  "0 < length buf \<Longrightarrow> 0 < length buf' \<Longrightarrow>
   TestLatin1Reader sample buf = Inr (latin1_to_utf8 sample) \<and>
   TestLatin1Reader sample buf' = TestLatin1Reader sample buf"
  by (simp add: TestLatin1Reader_correct)

definition test_sample :: "byte list" where
  "test_sample = [0xc0, 0xc1, 0xc7, 0xc8, 0xc9, 0x41, 0x42, 0x43, 0x44, 0xca, 0xe0, 0xe1, 0xe2,
     0xe7, 0xe8, 0xe9, 0xea, 0xee, 0xef, 0xf2, 0xf4, 0xf9, 0xfb, 0xff, 0xae, 0x45]"

theorem transcoder_buffer_independent_witness:
  "0 < length (replicate 5 (0::byte)) \<and> 0 < length (replicate 1 (0::byte)) \<and>
   TestLatin1Reader test_sample (replicate 5 0) =
     Inr [0xc3, 0x80, 0xc3, 0x81, 0xc3, 0x87, 0xc3, 0x88, 0xc3, 0x89, 0x41, 0x42, 0x43, 0x44,
          0xc3, 0x8a, 0xc3, 0xa0, 0xc3, 0xa1, 0xc3, 0xa2, 0xc3, 0xa7, 0xc3, 0xa8, 0xc3, 0xa9,
          0xc3, 0xaa, 0xc3, 0xae, 0xc3, 0xaf, 0xc3, 0xb2, 0xc3, 0xb4, 0xc3, 0xb9, 0xc3, 0xbb,
          0xc3, 0xbf, 0xc2, 0xae, 0x45] \<and>
   TestLatin1Reader test_sample (replicate 1 0) = TestLatin1Reader test_sample (replicate 5 0)"
  using transcoder_buffer_independent [of "replicate 5 0" "replicate 1 0" test_sample]
  by (simp add: latin1_to_utf8_def expand_def test_sample_def)


text \<open>
  C3: every call of Read that returns leaves the file offset at the offset it started from
  plus the number of source bytes consumed in the call: the contents are unchanged, the
  offset does not move backward past the start, and the bytes delivered (with the byte now
  pending) are the byte pending before followed by the expansion of exactly the source
  bytes between the old and the new offset.
\<close>

theorem Read_repositions_source:
  assumes "Read flr p = Inr (flr', p', k, err)"
  shows "contents (file_of flr') = contents (file_of flr) \<and>
         offset (file_of flr) \<le> offset (file_of flr') \<and>
         offset (file_of flr') - offset (file_of flr) \<le> length p \<and>
         offset (file_of flr') - offset (file_of flr)
           \<le> length (contents (file_of flr)) - offset (file_of flr) \<and>
         take k p' @ pending (currentChar flr') =
           pending (currentChar flr) @
           latin1_to_utf8 (take (offset (file_of flr') - offset (file_of flr))
                             (drop (offset (file_of flr)) (contents (file_of flr))))"
  using Read_establishes [OF assms] by (simp add: Read_post_def Let_def)

theorem Read_repositions_source_witness:
  "Read \<lparr>file_of = \<lparr>contents = [0x41, 0xE9, 0x42, 0x43], offset = 0\<rparr>, currentChar = 0\<rparr> [0, 0, 0] =
     Inr (\<lparr>file_of = \<lparr>contents = [0x41, 0xE9, 0x42, 0x43], offset = 2\<rparr>, currentChar = 0\<rparr>,
          [0x41, 0xC3, 0xA9], 3, None) \<and>
   take 3 [0x41, 0xC3, 0xA9] @ pending 0 = pending 0 @ latin1_to_utf8 (take (2 - 0) (drop 0 [0x41, 0xE9, 0x42, 0x43 :: byte]))"
proof -
  have R: "Read \<lparr>file_of = \<lparr>contents = [0x41, 0xE9, 0x42, 0x43], offset = 0\<rparr>, currentChar = 0\<rparr> [0, 0, 0] =
     Inr (\<lparr>file_of = \<lparr>contents = [0x41, 0xE9, 0x42, 0x43], offset = 2\<rparr>, currentChar = 0\<rparr>,
          [0x41, 0xC3, 0xA9], 3, None)"
    by (simp add: Read_def file_Read_def file_Seek_def Read_loop.simps)
  from Read_repositions_source [OF R] R show ?thesis
    by (simp add: latin1_to_utf8_def expand_def)
qed


text \<open>
  C10: after a call of Read a nonzero \<open>currentChar\<close> is the second byte of the two-byte
  expansion of the last source byte consumed in that call, lies in \<open>0x80..0xBF\<close> and is
  therefore not the idle value; a call that starts with a nonzero \<open>currentChar\<close> writes it
  at \<open>p[0]\<close> first, and any byte pending afterwards comes from a source byte consumed
  by this call.
\<close>

theorem pending_byte_sound:
  assumes "Read flr p = Inr (flr', p', k, err)"
  shows "(currentChar flr' \<noteq> 0 \<longrightarrow>
            0x80 \<le> currentChar flr' \<and> currentChar flr' \<le> 0xBF \<and>
            offset (file_of flr) < offset (file_of flr') \<and>
            expand (contents (file_of flr) ! (offset (file_of flr') - 1)) =
              [0xC0 OR drop_bit 6 (contents (file_of flr) ! (offset (file_of flr') - 1) AND 0xC0),
               currentChar flr']) \<and>
         (currentChar flr \<noteq> 0 \<longrightarrow> 0 < k \<and> p' ! 0 = currentChar flr)"
proof -
  from Read_establishes [OF assms] have P: "Read_post flr p flr' p' k err" .
  have a: "0x80 \<le> currentChar flr' \<and> currentChar flr' \<le> 0xBF \<and>
            offset (file_of flr) < offset (file_of flr') \<and>
            expand (contents (file_of flr) ! (offset (file_of flr') - 1)) =
              [0xC0 OR drop_bit 6 (contents (file_of flr) ! (offset (file_of flr') - 1) AND 0xC0),
               currentChar flr']" if "currentChar flr' \<noteq> 0"
    using P that second_byte_ge second_byte_le
    by (auto simp: Read_post_def Let_def expand_def)
  have b: "0 < k \<and> p' ! 0 = currentChar flr" if nz: "currentChar flr \<noteq> 0"
  proof -
    from Read_Inr_ok [OF assms] nz have lp: "0 < length p" by auto
    from P have S: "take k p' @ pending (currentChar flr') =
        currentChar flr # latin1_to_utf8 (take (offset (file_of flr') - offset (file_of flr))
                             (drop (offset (file_of flr)) (contents (file_of flr))))"
      and K: "currentChar flr' \<noteq> 0 \<longrightarrow> k = length p" and len: "length p' = length p"
      using nz by (auto simp: Read_post_def Let_def pending_def)
    have k: "0 < k"
    proof (rule ccontr)
      assume "\<not> 0 < k"
      with S have "pending (currentChar flr') \<noteq> []" by auto
      then have "currentChar flr' \<noteq> 0" by (auto simp: pending_def split: if_splits)
      with K lp \<open>\<not> 0 < k\<close> show False by simp
    qed
    with S len lp have "hd (take k p') = currentChar flr"
      by (cases "take k p'") auto
    with k len lp show ?thesis by (cases p') auto
  qed
  from a b show ?thesis by blast
qed

theorem pending_byte_sound_witness:
  "Read \<lparr>file_of = \<lparr>contents = [0xC0, 0xE9], offset = 1\<rparr>, currentChar = 0x80\<rparr> [0, 0] =
     Inr (\<lparr>file_of = \<lparr>contents = [0xC0, 0xE9], offset = 2\<rparr>, currentChar = 0xA9\<rparr>,
          [0x80, 0xC3], 2, None) \<and>
   (0xA9 :: byte) \<noteq> 0 \<and> (0x80 :: byte) \<noteq> 0 \<and>
   (0x80 :: byte) \<le> 0xA9 \<and> (0xA9 :: byte) \<le> 0xBF \<and>
   expand 0xE9 = [0xC3, 0xA9] \<and> [0x80, 0xC3 :: byte] ! 0 = 0x80"
proof -
  have R: "Read \<lparr>file_of = \<lparr>contents = [0xC0, 0xE9], offset = 1\<rparr>, currentChar = 0x80\<rparr> [0, 0] =
     Inr (\<lparr>file_of = \<lparr>contents = [0xC0, 0xE9], offset = 2\<rparr>, currentChar = 0xA9\<rparr>,
          [0x80, 0xC3], 2, None)"
    by (simp add: Read_def file_Read_def file_Seek_def Read_loop.simps)
  from pending_byte_sound [OF R] R show ?thesis
    by simp
qed

text \<open>
  C4: when the file is already at its end and a second expansion byte is pending, the call
  writes that byte, returns the count 1 and returns \<open>io.EOF\<close> in the same call, leaving
  nothing pending (the branch that would return \<open>nil\<close> needs a byte still pending after
  the call, which cannot happen once the file has nothing left); a caller that takes the
  returned bytes before looking at the error, as the reading loop does, receives one byte
  for every source byte below \<open>0x80\<close> and two for every other one.
\<close>

theorem pending_byte_delivered_at_eof:
  "(currentChar flr \<noteq> 0 \<and> length (contents (file_of flr)) \<le> offset (file_of flr) \<and> 0 < length p \<longrightarrow>
      (\<exists>flr' p'. Read flr p = Inr (flr', p', 1, Some EOF) \<and> p' ! 0 = currentChar flr \<and>
         currentChar flr' = 0 \<and> file_of flr' = file_of flr)) \<and>
   (0 < length buf \<longrightarrow>
      (\<exists>out. TestLatin1Reader sample buf = Inr out \<and>
         length out = sum_list (map (\<lambda>b. if b < 0x80 then 1 else 2) sample)))"
proof (intro conjI impI)
  assume A: "currentChar flr \<noteq> 0 \<and> length (contents (file_of flr)) \<le> offset (file_of flr) \<and> 0 < length p"
  from Read_correct [of p flr] A obtain flr' p' k err
    where R: "Read flr p = Inr (flr', p', k, err)" and P: "Read_post flr p flr' p' k err"
    by blast
  from P A have off: "offset (file_of flr') = offset (file_of flr)"
    and C: "contents (file_of flr') = contents (file_of flr)"
    and err: "err = Some EOF"
    by (auto simp: Read_post_def Let_def)
  from P A off have c0: "currentChar flr' = 0"
    by (auto simp: Read_post_def Let_def)
  from P A off c0 have S: "take k p' = [currentChar flr]" and len: "length p' = length p"
    by (auto simp: Read_post_def Let_def pending_def)
  from P have kle: "k \<le> length p"
    by (simp add: Read_post_def Let_def)
  have "length (take k p') = 1"
    by (simp only: S) simp
  with kle len have k: "k = 1"
    by simp
  from S k len A have "p' ! 0 = currentChar flr"
    by (cases p') auto
  moreover have "file_of flr' = file_of flr"
    using off C by simp
  ultimately show "\<exists>flr' p'. Read flr p = Inr (flr', p', 1, Some EOF) \<and> p' ! 0 = currentChar flr \<and>
         currentChar flr' = 0 \<and> file_of flr' = file_of flr"
    using R k err c0 by auto
next
  assume "0 < length buf"
  then have "TestLatin1Reader sample buf = Inr (latin1_to_utf8 sample)"
    by (rule TestLatin1Reader_correct)
  moreover have "length (latin1_to_utf8 sample) = sum_list (map (\<lambda>b. if b < 0x80 then 1 else 2) sample)"
    by (induction sample) (auto simp: latin1_to_utf8_def expand_def)
  ultimately show "\<exists>out. TestLatin1Reader sample buf = Inr out \<and>
         length out = sum_list (map (\<lambda>b. if b < 0x80 then 1 else 2) sample)"
    by simp
qed

theorem pending_byte_delivered_at_eof_witness:
  "(0x80 :: byte) \<noteq> 0 \<and> length [0xC0 :: byte] \<le> 1 \<and> 0 < length [0xC3 :: byte] \<and>
   (\<exists>flr' p'. Read \<lparr>file_of = \<lparr>contents = [0xC0], offset = 1\<rparr>, currentChar = 0x80\<rparr> [0xC3] =
        Inr (flr', p', 1, Some EOF) \<and> p' ! 0 = 0x80 \<and> currentChar flr' = 0 \<and>
        file_of flr' = \<lparr>contents = [0xC0], offset = 1\<rparr>) \<and>
   (\<exists>out. TestLatin1Reader [0xC0, 0x41] [0] = Inr out \<and> length out = 3)"
  using pending_byte_delivered_at_eof
    [of "\<lparr>file_of = \<lparr>contents = [0xC0], offset = 1\<rparr>, currentChar = 0x80\<rparr>" "[0xC3]" "[0]"
        "[0xC0, 0x41]"]
  by simp

text \<open>
  The claim as stated fails on a one-byte file holding \<open>0xC0\<close>, read with a one-byte
  buffer: the first call writes \<open>0xC3\<close> and keeps \<open>0x80\<close>; the second call finds the file
  at its end, writes the pending \<open>0x80\<close> and returns \<open>io.EOF\<close> with it.
\<close>

theorem pending_byte_eof_counterexample:
  "Read \<lparr>file_of = \<lparr>contents = [0xC0], offset = 0\<rparr>, currentChar = 0\<rparr> [0] =
     Inr (\<lparr>file_of = \<lparr>contents = [0xC0], offset = 1\<rparr>, currentChar = 0x80\<rparr>, [0xC3], 1, None) \<and>
   Read \<lparr>file_of = \<lparr>contents = [0xC0], offset = 1\<rparr>, currentChar = 0x80\<rparr> [0xC3] =
     Inr (\<lparr>file_of = \<lparr>contents = [0xC0], offset = 1\<rparr>, currentChar = 0\<rparr>, [0x80], 1, Some EOF)"
  by (simp add: Read_def file_Read_def file_Seek_def Read_loop.simps)


section \<open>The ordered container\<close>

text \<open>
  The range tables and the country table are kept in a B-tree of the library
  \<^verbatim>\<open>github.com/google/btree\<close>, which the repository imports.  The library is not part of the
  repository; the functions the loaders and lookups call (\<^verbatim>\<open>New\<close>, \<^verbatim>\<open>ReplaceOrInsert\<close>, \<^verbatim>\<open>Get\<close>,
  \<^verbatim>\<open>Len\<close>) and what they call in turn (\<^verbatim>\<open>items.find\<close>, \<^verbatim>\<open>items.insertAt\<close>, \<^verbatim>\<open>node.split\<close>,
  \<^verbatim>\<open>node.maybeSplitChild\<close>, \<^verbatim>\<open>node.insert\<close>, \<^verbatim>\<open>node.get\<close>, and \<^verbatim>\<open>sort.Search\<close> of the standard
  library) are transcribed here from the library's source.  The comparison \<^verbatim>\<open>Item.Less\<close> is a
  parameter \<open>Less\<close>.  A node is its slice of items and its slice of children; a slice expression is
  \<open>take\<close> and \<open>drop\<close>, and an index expression that Go would reject with a run-time panic is the
  result \<open>Inl IndexOutOfRange\<close>.  The free list of nodes only recycles memory and is left out.
\<close>

datatype 'a node = Node (items: "'a list") (children: "'a node list")

record 'a BTree =
  degree :: nat
  tlength :: nat
  root :: "'a node option"

function Search_loop :: "(nat \<Rightarrow> bool) \<Rightarrow> nat \<Rightarrow> nat \<Rightarrow> nat" where
  "Search_loop f i j =
     (if i < j then
        (let h = (i + j) div 2
         in if \<not> f h then Search_loop f (h + 1) j else Search_loop f i h)
      else i)"
  by pat_completeness auto
termination
  by (relation "measure (\<lambda>(f, i, j). j - i)") auto

definition Search :: "nat \<Rightarrow> (nat \<Rightarrow> bool) \<Rightarrow> nat" where
  "Search n f = Search_loop f 0 n"

definition items_find :: "('a \<Rightarrow> 'a \<Rightarrow> bool) \<Rightarrow> 'a list \<Rightarrow> 'a \<Rightarrow> nat \<times> bool" where
  "items_find Less s item =
     (let i = Search (length s) (\<lambda>i. Less item (s ! i))
      in if 0 < i \<and> \<not> Less (s ! (i - 1)) item then (i - 1, True) else (i, False))"

definition insertAt :: "'b list \<Rightarrow> nat \<Rightarrow> 'b \<Rightarrow> 'b list" where
  "insertAt s index item = take index s @ item # drop index s"

definition split :: "'a node \<Rightarrow> nat \<Rightarrow> 'a node \<times> 'a \<times> 'a node" where
  "split n i =
     (Node (take i (items n)) (if 0 < length (children n) then take (i + 1) (children n) else children n),
      items n ! i,
      Node (drop (i + 1) (items n)) (if 0 < length (children n) then drop (i + 1) (children n) else []))"

definition maybeSplitChild :: "'a node \<Rightarrow> nat \<Rightarrow> nat \<Rightarrow> 'a node \<times> bool" where
  "maybeSplitChild n i maxItems =
     (if length (items (children n ! i)) < maxItems then (n, False)
      else
        (let (first, item, second) = split (children n ! i) (maxItems div 2)
         in (Node (insertAt (items n) i item) (insertAt ((children n)[i := first]) (i + 1) second),
             True)))"

fun nsize :: "'a node \<Rightarrow> nat" where
  "nsize (Node its ch) = Suc (sum_list (map nsize ch))"

lemma sum_take_drop:
  "sum_list (map f (take k xs)) + sum_list (map f (drop k xs)) = sum_list (map (f :: 'b \<Rightarrow> nat) xs)"
  by (metis append_take_drop_id map_append sum_list_append)

lemma sum_take_le: "sum_list (map f (take k xs)) \<le> sum_list (map (f :: 'b \<Rightarrow> nat) xs)"
  using sum_take_drop [of f k xs] by simp

lemma sum_drop_le: "sum_list (map f (drop k xs)) \<le> sum_list (map (f :: 'b \<Rightarrow> nat) xs)"
  using sum_take_drop [of f k xs] by simp

lemma nsize_member: "c \<in> set ch \<Longrightarrow> nsize c < nsize (Node its ch)"
  by (simp add: less_Suc_eq_le member_le_sum_list)

lemma nsize_nth: "i < length ch \<Longrightarrow> nsize (ch ! i) < nsize (Node its ch)"
  by (rule nsize_member) simp

lemma split_nsize:
  "split c k = (first, item, second) \<Longrightarrow> nsize first \<le> nsize c \<and> nsize second \<le> nsize c"
  by (cases c) (auto simp: split_def sum_take_le sum_drop_le)

lemma maybeSplitChild_nsize:
  assumes "i < length ch" "maybeSplitChild (Node its ch) i m = (n1, b)" "j < length (children n1)"
  shows "nsize (children n1 ! j) < nsize (Node its ch)"
proof (cases "length (items (ch ! i)) < m")
  case True
  with assms have "n1 = Node its ch" by (simp add: maybeSplitChild_def)
  with assms(3) show ?thesis by (simp only: node.sel nsize_nth)
next
  case False
  obtain first item second where S: "split (ch ! i) (m div 2) = (first, item, second)"
    by (metis prod_cases3)
  from split_nsize [OF S] nsize_nth [OF assms(1), of its]
  have fs: "nsize first < nsize (Node its ch)" "nsize second < nsize (Node its ch)"
    by auto
  from False S assms(2) have ch1: "children n1 = insertAt (ch[i := first]) (i + 1) second"
    by (auto simp: maybeSplitChild_def)
  have "\<And>c. c \<in> set (children n1) \<Longrightarrow> nsize c < nsize (Node its ch)"
  proof -
    fix c assume "c \<in> set (children n1)"
    then have "c = second \<or> c \<in> set (ch[i := first]) \<or> c \<in> set ch"
      by (auto simp: ch1 insertAt_def dest: in_set_takeD in_set_dropD)
    then have "c = second \<or> c = first \<or> c \<in> set ch"
      using set_update_subset_insert [of ch i first] by auto
    with fs show "nsize c < nsize (Node its ch)"
      using nsize_member [of c ch its] by blast
  qed
  with assms(3) show ?thesis using nth_mem by blast
qed

function get_node :: "('a \<Rightarrow> 'a \<Rightarrow> bool) \<Rightarrow> 'a node \<Rightarrow> 'a \<Rightarrow> panic + 'a option" where
  "get_node Less (Node its ch) key =
     (case items_find Less its key of
        (i, True) \<Rightarrow> Inr (Some (its ! i))
      | (i, False) \<Rightarrow>
          if 0 < length ch then
            (if i < length ch then get_node Less (ch ! i) key else Inl IndexOutOfRange)
          else Inr None)"
  by pat_completeness auto
termination
  by (relation "measure (\<lambda>(Less, n, key). nsize n)") (auto simp: nsize_nth simp del: nsize.simps)

function insert_node ::
  "('a \<Rightarrow> 'a \<Rightarrow> bool) \<Rightarrow> 'a node \<Rightarrow> 'a \<Rightarrow> nat \<Rightarrow> panic + ('a node \<times> 'a option)" where
  "insert_node Less (Node its ch) item maxItems =
     (case items_find Less its item of
        (i, True) \<Rightarrow> Inr (Node (its[i := item]) ch, Some (its ! i))
      | (i, False) \<Rightarrow>
          if length ch = 0 then Inr (Node (insertAt its i item) ch, None)
          else if \<not> i < length ch then Inl IndexOutOfRange
          else
            (case maybeSplitChild (Node its ch) i maxItems of
               (n1, True) \<Rightarrow>
                 (let inTree = items n1 ! i
                  in if Less item inTree then
                       (if i < length (children n1) then
                          (case insert_node Less (children n1 ! i) item maxItems of
                             Inl e \<Rightarrow> Inl e
                           | Inr (c, out) \<Rightarrow> Inr (Node (items n1) ((children n1)[i := c]), out))
                        else Inl IndexOutOfRange)
                     else if Less inTree item then
                       (if i + 1 < length (children n1) then
                          (case insert_node Less (children n1 ! (i + 1)) item maxItems of
                             Inl e \<Rightarrow> Inl e
                           | Inr (c, out) \<Rightarrow> Inr (Node (items n1) ((children n1)[i + 1 := c]), out))
                        else Inl IndexOutOfRange)
                     else Inr (Node ((items n1)[i := item]) (children n1), Some inTree))
             | (n1, False) \<Rightarrow>
                 (if i < length (children n1) then
                    (case insert_node Less (children n1 ! i) item maxItems of
                       Inl e \<Rightarrow> Inl e
                     | Inr (c, out) \<Rightarrow> Inr (Node (items n1) ((children n1)[i := c]), out))
                  else Inl IndexOutOfRange)))"
  by pat_completeness auto
termination
  by (relation "measure (\<lambda>(Less, n, item, m). nsize n)")
    (auto intro: maybeSplitChild_nsize [OF _ sym] simp del: nsize.simps)

definition maxItems :: "'a BTree \<Rightarrow> nat" where
  "maxItems t = degree t * 2 - 1"

definition ReplaceOrInsert ::
  "('a \<Rightarrow> 'a \<Rightarrow> bool) \<Rightarrow> 'a BTree \<Rightarrow> 'a \<Rightarrow> panic + ('a BTree \<times> 'a option)" where
  "ReplaceOrInsert Less t item =
     (case root t of
        None \<Rightarrow> Inr (t\<lparr>root := Some (Node [item] []), tlength := tlength t + 1\<rparr>, None)
      | Some r \<Rightarrow>
          (let r1 = (if length (items r) \<ge> maxItems t then
                       (let (oldroot, item2, second) = split r (maxItems t div 2)
                        in Node [item2] [oldroot, second])
                     else r)
           in case insert_node Less r1 item (maxItems t) of
                Inl e \<Rightarrow> Inl e
              | Inr (r2, out) \<Rightarrow>
                  Inr (t\<lparr>root := Some r2,
                         tlength := (if out = None then tlength t + 1 else tlength t)\<rparr>, out)))"

definition BTree_Get :: "('a \<Rightarrow> 'a \<Rightarrow> bool) \<Rightarrow> 'a BTree \<Rightarrow> 'a \<Rightarrow> panic + 'a option" where
  "BTree_Get Less t key = (case root t of None \<Rightarrow> Inr None | Some r \<Rightarrow> get_node Less r key)"

definition Len :: "'a BTree \<Rightarrow> nat" where
  "Len t = tlength t"

subsection \<open>In-order contents, lookup and insertion\<close>

text \<open>
  The items of a tree in the order of an in-order walk: the items of a node interleaved with the
  walks of its children.  A node is well formed when it is a leaf or has one child more than it has
  items, and so are its children.  The comparison need not be a strict order on all records: it is
  enough that \<open>Less a b\<close> and \<open>Less b c\<close> give \<open>Less a c\<close> whenever the middle record \<open>b\<close> is one of the
  valid ones (\<open>mid_trans\<close>).
\<close>

fun interleave :: "'a list \<Rightarrow> 'a list list \<Rightarrow> 'a list" where
  "interleave [] cs = concat cs"
| "interleave (x # xs) [] = x # xs"
| "interleave (x # xs) (c # cs) = c @ x # interleave xs cs"

fun interleave_from_item :: "'a list \<Rightarrow> 'a list list \<Rightarrow> 'a list" where
  "interleave_from_item [] cs = concat cs"
| "interleave_from_item (x # xs) cs = x # interleave xs cs"

fun inorder :: "'a node \<Rightarrow> 'a list" where
  "inorder (Node its ch) = interleave its (map inorder ch)"

fun wf_node :: "'a node \<Rightarrow> bool" where
  "wf_node (Node its ch) \<longleftrightarrow> (ch = [] \<or> length ch = Suc (length its)) \<and> (\<forall>c \<in> set ch. wf_node c)"

lemma interleave_Nil2 [simp]: "interleave xs [] = xs"
  by (cases xs) auto

lemma interleave_Cons2: "interleave xs (c # cs) = c @ interleave_from_item xs cs"
  by (cases xs) auto

lemma interleave_snoc_child: "length xs = length cs \<Longrightarrow> interleave xs (cs @ [c]) = interleave xs cs @ c"
  by (induction xs cs rule: list_induct2) auto

lemma interleave_snoc_both:
  "length xs = length cs \<Longrightarrow> interleave (xs @ [x]) (cs @ [c]) = interleave xs cs @ c @ [x]"
  by (induction xs cs rule: list_induct2) auto

lemma interleave_at_child:
  "length cs = Suc (length its) \<Longrightarrow> i \<le> length its \<Longrightarrow>
   interleave its cs = interleave (take i its) (take i cs) @ cs ! i @ interleave_from_item (drop i its) (drop (Suc i) cs)"
proof (induction i arbitrary: its cs)
  case 0
  then show ?case by (cases cs) (auto simp: interleave_Cons2)
next
  case (Suc i)
  then obtain x xs c cs' where "its = x # xs" "cs = c # cs'"
    by (cases its; cases cs) auto
  with Suc show ?case by simp
qed

lemma set_items_inter: "set its \<subseteq> set (interleave its cs)"
  by (induction its cs rule: interleave.induct) auto

lemma sorted_items_inter: "sorted_wrt R (interleave its cs) \<Longrightarrow> sorted_wrt R its"
proof (induction its cs rule: interleave.induct)
  case (3 x xs c cs)
  then show ?case using set_items_inter [of xs cs] by (auto simp: sorted_wrt_append)
qed auto

declare Search_loop.simps [simp del]

lemma Search_loop_stop: "\<not> i < j \<Longrightarrow> Search_loop f i j = i"
  by (subst Search_loop.simps) simp

lemma Search_loop_hi:
  "i < j \<Longrightarrow> f ((i + j) div 2) \<Longrightarrow> Search_loop f i j = Search_loop f i ((i + j) div 2)"
  by (subst Search_loop.simps) (simp add: Let_def)

lemma Search_loop_lo:
  "i < j \<Longrightarrow> \<not> f ((i + j) div 2) \<Longrightarrow> Search_loop f i j = Search_loop f ((i + j) div 2 + 1) j"
  by (subst Search_loop.simps) (simp add: Let_def)

lemma Search_loop_range: "i \<le> j \<Longrightarrow> i \<le> Search_loop f i j \<and> Search_loop f i j \<le> j"
proof (induction f i j rule: Search_loop.induct)
  case (1 f i j)
  show ?case
  proof (cases "i < j")
    case False
    with "1.prems" show ?thesis by (simp add: Search_loop_stop)
  next
    case True
    define h where "h = (i + j) div 2"
    from True have h: "i \<le> h" "h < j" by (auto simp: h_def)
    show ?thesis
    proof (cases "f h")
      case fh: True
      then have nn: "\<not> \<not> f h" by simp
      have eq: "Search_loop f i j = Search_loop f i h"
        using Search_loop_hi [of i j f] True fh by (simp add: h_def)
      from "1.IH"(2) [OF True h_def nn h(1)] h show ?thesis
        by (simp only: eq) simp
    next
      case fh: False
      have eq: "Search_loop f i j = Search_loop f (h + 1) j"
        using Search_loop_lo [of i j f] True fh by (simp add: h_def)
      have "h + 1 \<le> j" using h by simp
      from "1.IH"(1) [OF True h_def fh this] h show ?thesis
        by (simp only: eq) simp
    qed
  qed
qed

lemma Search_loop_least:
  "\<forall>a b. a \<le> b \<and> b < n \<and> f a \<longrightarrow> f b \<Longrightarrow>
   i \<le> j \<Longrightarrow> j \<le> n \<Longrightarrow> \<forall>k<i. \<not> f k \<Longrightarrow> \<forall>k. j \<le> k \<and> k < n \<longrightarrow> f k \<Longrightarrow>
         (\<forall>k < Search_loop f i j. \<not> f k) \<and> (\<forall>k. Search_loop f i j \<le> k \<and> k < n \<longrightarrow> f k)"
proof (induction f i j rule: Search_loop.induct)
  case (1 f i j)
  note mono = "1.prems"(1)
  note prems = "1.prems"(2-)
  show ?case
  proof (cases "i < j")
    case False
    with prems(1) have "i = j" by simp
    then have "Search_loop f i j = j" by (simp add: Search_loop_stop)
    with prems(3,4) \<open>i = j\<close> show ?thesis by simp
  next
    case True
    define h where "h = (i + j) div 2"
    from True have h: "i \<le> h" "h < j" by (auto simp: h_def)
    show ?thesis
    proof (cases "f h")
      case fh: True
      then have nn: "\<not> \<not> f h" by simp
      have eq: "Search_loop f i j = Search_loop f i h"
        using Search_loop_hi [of i j f] True fh by (simp add: h_def)
      have a: "\<forall>k. h \<le> k \<and> k < n \<longrightarrow> f k"
      proof (intro allI impI)
        fix k assume "h \<le> k \<and> k < n"
        with fh mono [rule_format, of h k] show "f k" by simp
      qed
      have b: "h \<le> n" using h prems(2) by simp
      show ?thesis
        unfolding eq by (rule "1.IH"(2) [OF True h_def nn mono h(1) b prems(3) a])
    next
      case fh: False
      have eq: "Search_loop f i j = Search_loop f (h + 1) j"
        using Search_loop_lo [of i j f] True fh by (simp add: h_def)
      have a: "\<forall>k < h + 1. \<not> f k"
      proof (intro allI impI)
        fix k assume "k < h + 1"
        then have "k \<le> h" by simp
        moreover have "h < n" using h prems(2) by simp
        ultimately show "\<not> f k" using mono [rule_format, of k h] fh by auto
      qed
      have b: "h + 1 \<le> j" using h by simp
      show ?thesis
        unfolding eq by (rule "1.IH"(1) [OF True h_def fh mono b prems(2) a prems(4)])
    qed
  qed
qed

definition mid_trans :: "('a \<Rightarrow> bool) \<Rightarrow> ('a \<Rightarrow> 'a \<Rightarrow> bool) \<Rightarrow> bool" where
  "mid_trans V Less \<longleftrightarrow> (\<forall>a b c. V b \<and> Less a b \<and> Less b c \<longrightarrow> Less a c)"

lemma mid_transD: "mid_trans V Less \<Longrightarrow> V b \<Longrightarrow> Less a b \<Longrightarrow> Less b c \<Longrightarrow> Less a c"
  unfolding mid_trans_def by blast

lemma Search_least:
  assumes "\<forall>a b. a \<le> b \<and> b < n \<and> f a \<longrightarrow> f b"
  shows "Search n f \<le> n \<and> (\<forall>k < Search n f. \<not> f k) \<and> (\<forall>k. Search n f \<le> k \<and> k < n \<longrightarrow> f k)"
proof -
  have r: "0 \<le> Search_loop f 0 n \<and> Search_loop f 0 n \<le> n"
    by (rule Search_loop_range) simp
  have l: "(\<forall>k < Search_loop f 0 n. \<not> f k) \<and> (\<forall>k. Search_loop f 0 n \<le> k \<and> k < n \<longrightarrow> f k)"
    by (rule Search_loop_least [OF assms]) auto
  show ?thesis
    unfolding Search_def by (rule conjI [OF conjunct2 [OF r] l])
qed

lemma items_find_found:
  assumes T: "mid_trans V Less" and S: "sorted_wrt Less s" and V: "\<forall>a \<in> set s. V a"
    and F: "items_find Less s x = (i, True)"
  shows "i < length s \<and> \<not> Less x (s ! i) \<and> \<not> Less (s ! i) x"
proof -
  define r where "r = Search (length s) (\<lambda>i. Less x (s ! i))"
  have mono: "\<forall>a b. a \<le> b \<and> b < length s \<and> Less x (s ! a) \<longrightarrow> Less x (s ! b)"
  proof (intro allI impI)
    fix a b assume A: "a \<le> b \<and> b < length s \<and> Less x (s ! a)"
    show "Less x (s ! b)"
    proof (cases "a = b")
      case True with A show ?thesis by simp
    next
      case False
      with A have "a < b" by simp
      with S A have "Less (s ! a) (s ! b)" by (simp add: sorted_wrt_iff_nth_less)
      moreover from A V have "V (s ! a)" by simp
      ultimately show ?thesis using A mid_transD [OF T, of "s ! a" x "s ! b"] by simp
    qed
  qed
  note SL = Search_least [OF mono, folded r_def]
  from SL have R: "r \<le> length s" "\<forall>k<r. \<not> Less x (s ! k)"
    by blast+
  note F' = F [unfolded items_find_def Let_def, folded r_def]
  from F' have "0 < r" "\<not> Less (s ! (r - 1)) x" "i = r - 1"
    by (auto split: if_splits)
  with R show ?thesis by auto
qed

lemma items_find_missing:
  assumes T: "mid_trans V Less" and S: "sorted_wrt Less s" and V: "\<forall>a \<in> set s. V a"
    and F: "items_find Less s x = (i, False)"
  shows "i \<le> length s \<and> (\<forall>k<i. Less (s ! k) x) \<and> (\<forall>k. i \<le> k \<and> k < length s \<longrightarrow> Less x (s ! k))"
proof -
  define r where "r = Search (length s) (\<lambda>i. Less x (s ! i))"
  have mono: "\<forall>a b. a \<le> b \<and> b < length s \<and> Less x (s ! a) \<longrightarrow> Less x (s ! b)"
  proof (intro allI impI)
    fix a b assume A: "a \<le> b \<and> b < length s \<and> Less x (s ! a)"
    show "Less x (s ! b)"
    proof (cases "a = b")
      case True with A show ?thesis by simp
    next
      case False
      with A have "a < b" by simp
      with S A have "Less (s ! a) (s ! b)" by (simp add: sorted_wrt_iff_nth_less)
      moreover from A V have "V (s ! a)" by simp
      ultimately show ?thesis using A mid_transD [OF T, of "s ! a" x "s ! b"] by simp
    qed
  qed
  note SL = Search_least [OF mono, folded r_def]
  from SL have R: "r \<le> length s"
    "\<forall>k. r \<le> k \<and> k < length s \<longrightarrow> Less x (s ! k)"
    by blast+
  note F' = F [unfolded items_find_def Let_def, folded r_def]
  from F' have ir: "i = r" and nf: "r = 0 \<or> Less (s ! (r - 1)) x"
    by (auto split: if_splits)
  have "\<forall>k<r. Less (s ! k) x"
  proof (intro allI impI)
    fix k assume k: "k < r"
    with nf have L: "Less (s ! (r - 1)) x" by auto
    show "Less (s ! k) x"
    proof (cases "k = r - 1")
      case True with L show ?thesis by simp
    next
      case False
      with k have "k < r - 1" by simp
      with S R(1) k have "Less (s ! k) (s ! (r - 1))" by (simp add: sorted_wrt_iff_nth_less)
      moreover from V R(1) k have "V (s ! (r - 1))" by simp
      ultimately show ?thesis using L mid_transD [OF T, of "s ! (r - 1)" "s ! k" x] by simp
    qed
  qed
  with R ir show ?thesis by simp
qed

lemma interleave_update_child:
  "length cs = Suc (length its) \<Longrightarrow> j \<le> length its \<Longrightarrow>
   interleave its (cs[j := c]) = interleave (take j its) (take j cs) @ c @ interleave_from_item (drop j its) (drop (Suc j) cs)"
  using interleave_at_child [of "cs[j := c]" its j] by simp

lemma left_part_snoc:
  assumes "length cs = Suc (length its)" "Suc k \<le> length its"
  shows "interleave (take (Suc k) its) (take (Suc k) cs) =
         (interleave (take k its) (take k cs) @ cs ! k) @ [its ! k]"
proof -
  have "take (Suc k) its = take k its @ [its ! k]" "take (Suc k) cs = take k cs @ [cs ! k]"
    using assms by (simp_all add: take_Suc_conv_app_nth)
  moreover have "length (take k its) = length (take k cs)"
    using assms by simp
  ultimately show ?thesis by (simp add: interleave_snoc_both)
qed

lemma left_bound:
  assumes T: "mid_trans V Less" and len: "length cs = Suc (length its)" and j: "j \<le> length its"
    and S: "sorted_wrt Less (interleave its cs)" and V: "\<forall>a \<in> set (interleave its cs). V a"
    and B: "j = 0 \<or> Less (its ! (j - 1)) x"
  shows "\<forall>a \<in> set (interleave (take j its) (take j cs)). Less a x"
proof (cases j)
  case 0
  then show ?thesis by simp
next
  case (Suc k)
  define L where "L = interleave (take k its) (take k cs) @ cs ! k"
  define z where "z = its ! k"
  define R where "R = cs ! j @ interleave_from_item (drop j its) (drop (Suc j) cs)"
  from left_part_snoc [OF len] j Suc
  have Lz: "interleave (take j its) (take j cs) = L @ [z]" by (simp add: L_def z_def)
  from interleave_at_child [OF len j] have D: "interleave its cs = (L @ [z]) @ R"
    by (simp add: Lz R_def)
  from B Suc have zx: "Less z x" by (simp add: z_def)
  from j Suc have "z \<in> set its" by (simp add: z_def)
  with V set_items_inter [of its cs] have Vz: "V z" by blast
  from S have "\<forall>a \<in> set L. Less a z"
    unfolding D by (simp add: sorted_wrt_append)
  with zx Vz mid_transD [OF T Vz] have "\<forall>a \<in> set (L @ [z]). Less a x"
    by auto
  then show ?thesis by (simp only: Lz)
qed

lemma right_bound:
  assumes T: "mid_trans V Less" and len: "length cs = Suc (length its)" and j: "j \<le> length its"
    and S: "sorted_wrt Less (interleave its cs)" and V: "\<forall>a \<in> set (interleave its cs). V a"
    and B: "j = length its \<or> Less x (its ! j)"
  shows "\<forall>b \<in> set (interleave_from_item (drop j its) (drop (Suc j) cs)). Less x b"
proof (cases "j = length its")
  case True
  with len show ?thesis by simp
next
  case False
  with j have jl: "j < length its" by simp
  define z where "z = its ! j"
  define R where "R = interleave (drop (Suc j) its) (drop (Suc j) cs)"
  define L where "L = interleave (take j its) (take j cs) @ cs ! j"
  have dz: "drop j its = z # drop (Suc j) its"
    using jl by (simp add: z_def Cons_nth_drop_Suc)
  have Rz: "interleave_from_item (drop j its) (drop (Suc j) cs) = z # R"
    by (simp add: dz R_def)
  from interleave_at_child [OF len j] have D: "interleave its cs = L @ z # R"
    by (simp add: Rz L_def)
  from B False have xz: "Less x z" by (simp add: z_def)
  from jl have "z \<in> set its" by (simp add: z_def)
  with V set_items_inter [of its cs] have Vz: "V z" by blast
  from S have "\<forall>b \<in> set R. Less z b"
    unfolding D by (simp add: sorted_wrt_append)
  with xz mid_transD [OF T Vz, of x] have "\<forall>b \<in> set (z # R). Less x b"
    by auto
  then show ?thesis by (simp only: Rz)
qed

declare get_node.simps [simp del]

definition found_spec :: "('a \<Rightarrow> 'a \<Rightarrow> bool) \<Rightarrow> 'a list \<Rightarrow> 'a \<Rightarrow> 'a option \<Rightarrow> bool" where
  "found_spec Less xs key r \<longleftrightarrow>
     (case r of
        None \<Rightarrow> \<forall>a \<in> set xs. Less a key \<or> Less key a
      | Some y \<Rightarrow> y \<in> set xs \<and> \<not> Less key y \<and> \<not> Less y key)"

lemma inorder_at_child:
  assumes "length ch = Suc (length its)" "i \<le> length its"
  shows "inorder (Node its ch) =
         interleave (take i its) (take i (map inorder ch)) @ inorder (ch ! i) @
         interleave_from_item (drop i its) (drop (Suc i) (map inorder ch))"
  using interleave_at_child [of "map inorder ch" its i] assms by simp

lemma get_correct:
  assumes T: "mid_trans V Less"
  shows "wf_node n \<Longrightarrow> sorted_wrt Less (inorder n) \<Longrightarrow> \<forall>a \<in> set (inorder n). V a \<Longrightarrow>
         \<exists>r. get_node Less n key = Inr r \<and> found_spec Less (inorder n) key r"
proof (induction n)
  case (Node its ch)
  note wf = Node.prems(1) and S = Node.prems(2) and V = Node.prems(3)
  have Sits: "sorted_wrt Less its"
    using S sorted_items_inter [of Less its "map inorder ch"] by simp
  have Vits: "\<forall>a \<in> set its. V a"
    using V set_items_inter [of its "map inorder ch"] by auto
  obtain i b where F: "items_find Less its key = (i, b)" by (cases "items_find Less its key")
  show ?case
  proof (cases b)
    case True
    have FT: "items_find Less its key = (i, True)" using F True by simp
    from items_find_found [OF T Sits Vits FT]
    have "i < length its" "\<not> Less key (its ! i)" "\<not> Less (its ! i) key" by auto
    moreover then have "its ! i \<in> set (inorder (Node its ch))"
      using set_items_inter [of its "map inorder ch"] by auto
    moreover have "get_node Less (Node its ch) key = Inr (Some (its ! i))"
      using F True by (simp add: get_node.simps)
    ultimately show ?thesis by (simp add: found_spec_def)
  next
    case False
    have FF: "items_find Less its key = (i, False)" using F False by simp
    from items_find_missing [OF T Sits Vits FF]
    have i: "i \<le> length its" and lo: "\<forall>k<i. Less (its ! k) key"
      and hi: "\<forall>k. i \<le> k \<and> k < length its \<longrightarrow> Less key (its ! k)" by auto
    show ?thesis
    proof (cases "ch = []")
      case True
      have "get_node Less (Node its ch) key = Inr None"
        using F False True by (simp add: get_node.simps)
      moreover have "\<forall>a \<in> set its. Less a key \<or> Less key a"
      proof
        fix a assume "a \<in> set its"
        then obtain k where "k < length its" "a = its ! k" by (auto simp: in_set_conv_nth)
        with lo hi show "Less a key \<or> Less key a" by (cases "k < i") auto
      qed
      ultimately show ?thesis using True by (simp add: found_spec_def)
    next
      case ne: False
      with wf have len: "length ch = Suc (length its)" by simp
      define L where "L = interleave (take i its) (take i (map inorder ch))"
      define R where "R = interleave_from_item (drop i its) (drop (Suc i) (map inorder ch))"
      have D: "inorder (Node its ch) = L @ inorder (ch ! i) @ R"
        using inorder_at_child [OF len i] by (simp add: L_def R_def)
      have len': "length (map inorder ch) = Suc (length its)" using len by simp
      have S': "sorted_wrt Less (interleave its (map inorder ch))" using S by simp
      have V': "\<forall>a \<in> set (interleave its (map inorder ch)). V a" using V by simp
      have Bl: "i = 0 \<or> Less (its ! (i - 1)) key" using lo by (cases i) auto
      have Br: "i = length its \<or> Less key (its ! i)" using hi i by auto
      from left_bound [OF T len' i S' V' Bl] have LB: "\<forall>a \<in> set L. Less a key"
        by (simp add: L_def)
      from right_bound [OF T len' i S' V' Br] have RB: "\<forall>b \<in> set R. Less key b"
        by (simp add: R_def)
      have mem: "ch ! i \<in> set ch" using len i by simp
      with wf have wfc: "wf_node (ch ! i)" by simp
      from S have Sc: "sorted_wrt Less (inorder (ch ! i))"
        unfolding D by (simp add: sorted_wrt_append)
      from V have Vc: "\<forall>a \<in> set (inorder (ch ! i)). V a"
        unfolding D by simp
      from Node.IH [OF mem wfc Sc Vc] obtain r where
        G: "get_node Less (ch ! i) key = Inr r" and P: "found_spec Less (inorder (ch ! i)) key r"
        by blast
      have "get_node Less (Node its ch) key = Inr r"
        using F False ne len i G by (simp add: get_node.simps)
      moreover have "found_spec Less (inorder (Node its ch)) key r"
        using P LB RB unfolding D by (cases r) (auto simp: found_spec_def)
      ultimately show ?thesis by blast
    qed
  qed
qed

lemma interleave_append:
  "length xs = length cs \<Longrightarrow> interleave (xs @ ys) (cs @ ds) = interleave xs cs @ interleave ys ds"
  by (induction xs cs rule: list_induct2) auto

lemma length_insertAt [simp]: "length (insertAt s i x) = Suc (length s)"
  by (simp add: insertAt_def)

lemma insertAt_nth_eq: "i \<le> length s \<Longrightarrow> insertAt s i x ! i = x"
  by (simp add: insertAt_def nth_append)

lemma insertAt_nth_lt: "k < i \<Longrightarrow> i \<le> length s \<Longrightarrow> insertAt s i x ! k = s ! k"
  by (simp add: insertAt_def nth_append)

lemma insertAt_nth_gt: "i \<le> k \<Longrightarrow> k < length s \<Longrightarrow> insertAt s i x ! Suc k = s ! k"
  by (simp add: insertAt_def nth_append Suc_diff_le)

lemma insertAt_children:
  "i < length ch \<Longrightarrow>
   insertAt (ch[i := first]) (i + 1) second = take i ch @ first # second # drop (Suc i) ch"
  by (simp add: insertAt_def take_update_last)

lemma split_inorder:
  assumes wf: "wf_node c" and k: "k < length (items c)" and S: "split c k = (first, item, second)"
  shows "inorder c = inorder first @ item # inorder second \<and> wf_node first \<and> wf_node second \<and>
         item = items c ! k"
proof (cases c)
  case (Node its ch)
  with k have k': "k < length its" by simp
  show ?thesis
  proof (cases "ch = []")
    case True
    with S Node have "first = Node (take k its) []" "item = its ! k" "second = Node (drop (Suc k) its) []"
      by (auto simp: split_def)
    with Node True k' show ?thesis by (simp add: id_take_nth_drop [symmetric])
  next
    case False
    with wf Node have len: "length ch = Suc (length its)" and wfc: "\<forall>c \<in> set ch. wf_node c"
      by auto
    from S Node False have fs: "first = Node (take k its) (take (Suc k) ch)" "item = its ! k"
      "second = Node (drop (Suc k) its) (drop (Suc k) ch)"
      by (auto simp: split_def)
    define cs where "cs = map inorder ch"
    have lcs: "length cs = Suc (length its)" using len by (simp add: cs_def)
    have tk: "take (Suc k) cs = take k cs @ [cs ! k]"
      using k' lcs by (simp add: take_Suc_conv_app_nth)
    have "inorder first = interleave (take k its) (take k cs) @ cs ! k"
      using k' lcs by (simp add: fs(1) take_map [symmetric] cs_def [symmetric] tk interleave_snoc_child)
    moreover have "inorder second = interleave (drop (Suc k) its) (drop (Suc k) cs)"
      by (simp add: fs(3) drop_map [symmetric] cs_def [symmetric])
    moreover have "interleave_from_item (drop k its) (drop (Suc k) cs) =
        its ! k # interleave (drop (Suc k) its) (drop (Suc k) cs)"
      using k' by (simp add: Cons_nth_drop_Suc [symmetric])
    moreover have "inorder c = interleave (take k its) (take k cs) @ cs ! k @
        interleave_from_item (drop k its) (drop (Suc k) cs)"
      using interleave_at_child [OF lcs, of k] k' by (simp add: Node cs_def)
    moreover have "wf_node first" "wf_node second"
      using wfc len k' by (auto simp: fs dest: in_set_takeD in_set_dropD)
    ultimately show ?thesis using fs(2) Node by simp
  qed
qed

lemma maybeSplitChild_keeps:
  "length (items (ch ! i)) < m \<Longrightarrow> maybeSplitChild (Node its ch) i m = (Node its ch, False)"
  by (simp add: maybeSplitChild_def)

lemma maybeSplitChild_splits:
  assumes wf: "wf_node (Node its ch)" and len: "length ch = Suc (length its)" and i: "i \<le> length its"
    and m: "0 < m" and big: "\<not> length (items (ch ! i)) < m"
  shows "\<exists>first item second.
           maybeSplitChild (Node its ch) i m =
             (Node (insertAt its i item) (take i ch @ first # second # drop (Suc i) ch), True) \<and>
           wf_node first \<and> wf_node second \<and>
           inorder (ch ! i) = inorder first @ item # inorder second"
proof -
  obtain first item second where S: "split (ch ! i) (m div 2) = (first, item, second)"
    by (cases "split (ch ! i) (m div 2)")
  have il: "i < length ch" using len i by simp
  then have "ch ! i \<in> set ch" by simp
  with wf have wfc: "wf_node (ch ! i)" by simp
  have k: "m div 2 < length (items (ch ! i))" using m big by simp
  from split_inorder [OF wfc k S] have
    "inorder (ch ! i) = inorder first @ item # inorder second" "wf_node first" "wf_node second"
    by auto
  moreover have "maybeSplitChild (Node its ch) i m =
      (Node (insertAt its i item) (take i ch @ first # second # drop (Suc i) ch), True)"
    using big S insertAt_children [OF il, of first second] by (simp add: maybeSplitChild_def)
  ultimately show ?thesis by blast
qed

lemma inorder_split_node:
  assumes len: "length ch = Suc (length its)" and i: "i \<le> length its"
    and c: "inorder (ch ! i) = inorder first @ item # inorder second"
  shows "inorder (Node (insertAt its i item) (take i ch @ first # second # drop (Suc i) ch)) =
         inorder (Node its ch)"
proof -
  define cs where "cs = map inorder ch"
  have lcs: "length cs = Suc (length its)" using len by (simp add: cs_def)
  have lt: "length (take i its) = length (take i cs)" using lcs i by simp
  have "inorder (Node (insertAt its i item) (take i ch @ first # second # drop (Suc i) ch)) =
        interleave (take i its @ item # drop i its)
              (take i cs @ inorder first # inorder second # drop (Suc i) cs)"
    by (simp add: insertAt_def cs_def take_map drop_map)
  also have "\<dots> = interleave (take i its) (take i cs) @
        interleave (item # drop i its) (inorder first # inorder second # drop (Suc i) cs)"
    by (rule interleave_append [OF lt])
  also have "\<dots> = interleave (take i its) (take i cs) @ (inorder first @ item # inorder second) @
        interleave_from_item (drop i its) (drop (Suc i) cs)"
    by (simp add: interleave_Cons2)
  also have "\<dots> = interleave (take i its) (take i cs) @ cs ! i @ interleave_from_item (drop i its) (drop (Suc i) cs)"
    using c len i by (simp add: cs_def)
  also have "\<dots> = inorder (Node its ch)"
    using interleave_at_child [OF lcs i] by (simp add: cs_def)
  finally show ?thesis .
qed

definition inserted :: "('a \<Rightarrow> 'a \<Rightarrow> bool) \<Rightarrow> 'a \<Rightarrow> 'a list \<Rightarrow> 'a list \<Rightarrow> bool" where
  "inserted Less x xs ys \<longleftrightarrow>
     (\<exists>l r. xs = l @ r \<and> ys = l @ x # r \<and> (\<forall>a \<in> set l. Less a x) \<and> (\<forall>b \<in> set r. Less x b))"

definition replaced :: "('a \<Rightarrow> 'a \<Rightarrow> bool) \<Rightarrow> 'a \<Rightarrow> 'a \<Rightarrow> 'a list \<Rightarrow> 'a list \<Rightarrow> bool" where
  "replaced Less x y xs ys \<longleftrightarrow>
     (\<exists>l r. xs = l @ y # r \<and> ys = l @ x # r) \<and> \<not> Less x y \<and> \<not> Less y x"

definition insert_spec ::
  "('a \<Rightarrow> 'a \<Rightarrow> bool) \<Rightarrow> 'a \<Rightarrow> 'a list \<Rightarrow> 'a list \<Rightarrow> 'a option \<Rightarrow> bool" where
  "insert_spec Less x xs ys out \<longleftrightarrow>
     (case out of None \<Rightarrow> inserted Less x xs ys | Some y \<Rightarrow> replaced Less x y xs ys)"

lemma inserted_context:
  assumes "inserted Less x c c'" "\<forall>a \<in> set L. Less a x" "\<forall>b \<in> set R. Less x b"
  shows "inserted Less x (L @ c @ R) (L @ c' @ R)"
proof -
  from assms(1) obtain l r where *: "c = l @ r" "c' = l @ x # r"
    "\<forall>a \<in> set l. Less a x" "\<forall>b \<in> set r. Less x b"
    unfolding inserted_def by blast
  have "L @ c @ R = (L @ l) @ (r @ R)" "L @ c' @ R = (L @ l) @ x # (r @ R)"
    using * by simp_all
  moreover have "\<forall>a \<in> set (L @ l). Less a x" "\<forall>b \<in> set (r @ R). Less x b"
    using * assms(2,3) by auto
  ultimately show ?thesis unfolding inserted_def by blast
qed

lemma replaced_context:
  assumes "replaced Less x y c c'"
  shows "replaced Less x y (L @ c @ R) (L @ c' @ R)"
proof -
  from assms obtain l r where *: "c = l @ y # r" "c' = l @ x # r" "\<not> Less x y" "\<not> Less y x"
    unfolding replaced_def by blast
  have "L @ c @ R = (L @ l) @ y # (r @ R)" "L @ c' @ R = (L @ l) @ x # (r @ R)"
    using * by simp_all
  with * show ?thesis unfolding replaced_def by blast
qed

lemma insert_spec_context:
  "insert_spec Less x c c' out \<Longrightarrow> \<forall>a \<in> set L. Less a x \<Longrightarrow> \<forall>b \<in> set R. Less x b \<Longrightarrow>
   insert_spec Less x (L @ c @ R) (L @ c' @ R) out"
  by (cases out) (auto simp: insert_spec_def intro: inserted_context replaced_context)

lemma interleave_update_item:
  assumes "cs = [] \<or> length cs = Suc (length its)" "i < length its"
  shows "\<exists>l r. \<forall>y. interleave (its[i := y]) cs = l @ y # r"
proof (cases "cs = []")
  case True
  then have "\<forall>y. interleave (its[i := y]) cs = take i its @ y # drop (Suc i) its"
    using assms(2) by (simp add: upd_conv_take_nth_drop)
  then show ?thesis by blast
next
  case False
  with assms have len: "length cs = Suc (length its)" by simp
  have lt: "length (take i its) = length (take i cs)" using len assms(2) by simp
  have csd: "cs = take i cs @ cs ! i # drop (Suc i) cs"
    using len assms(2) by (simp add: id_take_nth_drop [symmetric])
  have "\<forall>y. interleave (its[i := y]) cs =
      (interleave (take i its) (take i cs) @ cs ! i) @ y # interleave (drop (Suc i) its) (drop (Suc i) cs)"
  proof
    fix y
    have "interleave (its[i := y]) cs =
        interleave (take i its @ y # drop (Suc i) its) (take i cs @ cs ! i # drop (Suc i) cs)"
      using assms(2) csd by (simp add: upd_conv_take_nth_drop)
    also have "\<dots> = interleave (take i its) (take i cs) @
        interleave (y # drop (Suc i) its) (cs ! i # drop (Suc i) cs)"
      by (rule interleave_append [OF lt])
    finally show "interleave (its[i := y]) cs =
      (interleave (take i its) (take i cs) @ cs ! i) @ y # interleave (drop (Suc i) its) (drop (Suc i) cs)"
      by simp
  qed
  then show ?thesis by blast
qed

lemma replace_item_spec:
  assumes wf: "wf_node (Node its ch)" and i: "i < length its"
    and eq: "\<not> Less x (its ! i)" "\<not> Less (its ! i) x"
  shows "wf_node (Node (its[i := x]) ch) \<and>
         insert_spec Less x (inorder (Node its ch)) (inorder (Node (its[i := x]) ch)) (Some (its ! i))"
proof -
  from wf have "map inorder ch = [] \<or> length (map inorder ch) = Suc (length its)" by auto
  from interleave_update_item [OF this i] obtain l r
    where U: "\<And>y. interleave (its[i := y]) (map inorder ch) = l @ y # r" by blast
  from U [of "its ! i"] have "inorder (Node its ch) = l @ its ! i # r" by simp
  moreover from U [of x] have "inorder (Node (its[i := x]) ch) = l @ x # r" by simp
  ultimately have "replaced Less x (its ! i) (inorder (Node its ch)) (inorder (Node (its[i := x]) ch))"
    using eq unfolding replaced_def by blast
  with wf show ?thesis by (simp add: insert_spec_def)
qed

lemma descend_spec:
  assumes T: "mid_trans V Less" and wf: "wf_node (Node its ch)"
    and len: "length ch = Suc (length its)" and j: "j \<le> length its"
    and S: "sorted_wrt Less (inorder (Node its ch))" and V: "\<forall>a \<in> set (inorder (Node its ch)). V a"
    and Bl: "j = 0 \<or> Less (its ! (j - 1)) x" and Br: "j = length its \<or> Less x (its ! j)"
    and wfc: "wf_node c" and C: "insert_spec Less x (inorder (ch ! j)) (inorder c) out"
  shows "wf_node (Node its (ch[j := c])) \<and>
         insert_spec Less x (inorder (Node its ch)) (inorder (Node its (ch[j := c]))) out"
proof -
  define cs where "cs = map inorder ch"
  define L where "L = interleave (take j its) (take j cs)"
  define R where "R = interleave_from_item (drop j its) (drop (Suc j) cs)"
  have lcs: "length cs = Suc (length its)" using len by (simp add: cs_def)
  have S': "sorted_wrt Less (interleave its cs)" using S by (simp add: cs_def)
  have V': "\<forall>a \<in> set (interleave its cs). V a" using V by (simp add: cs_def)
  have D: "inorder (Node its ch) = L @ inorder (ch ! j) @ R"
    using interleave_at_child [OF lcs j] len j by (simp add: cs_def L_def R_def)
  have D': "inorder (Node its (ch[j := c])) = L @ inorder c @ R"
    using interleave_update_child [OF lcs j, of "inorder c"]
    by (simp add: cs_def L_def R_def map_update)
  from left_bound [OF T lcs j S' V' Bl] have LB: "\<forall>a \<in> set L. Less a x"
    by (simp add: L_def)
  from right_bound [OF T lcs j S' V' Br] have RB: "\<forall>b \<in> set R. Less x b"
    by (simp add: R_def)
  have "wf_node (Node its (ch[j := c]))"
    using wf wfc len by (auto dest: set_update_subset_insert [THEN subsetD])
  moreover have "insert_spec Less x (inorder (Node its ch)) (inorder (Node its (ch[j := c]))) out"
    unfolding D D' by (rule insert_spec_context [OF C LB RB])
  ultimately show ?thesis by blast
qed

lemma child_facts:
  assumes wf: "wf_node (Node its ch)" and len: "length ch = Suc (length its)" and j: "j \<le> length its"
    and S: "sorted_wrt Less (inorder (Node its ch))" and V: "\<forall>a \<in> set (inorder (Node its ch)). V a"
  shows "wf_node (ch ! j) \<and> sorted_wrt Less (inorder (ch ! j)) \<and> (\<forall>a \<in> set (inorder (ch ! j)). V a)"
proof -
  have "ch ! j \<in> set ch" using len j by simp
  with wf have "wf_node (ch ! j)" by simp
  moreover note D = inorder_at_child [OF len j]
  from S have "sorted_wrt Less (inorder (ch ! j))"
    unfolding D by (simp add: sorted_wrt_append)
  moreover from V have "\<forall>a \<in> set (inorder (ch ! j)). V a"
    unfolding D by simp
  ultimately show ?thesis by blast
qed

declare insert_node.simps [simp del]

lemma insert_found:
  "items_find Less its x = (i, True) \<Longrightarrow>
   insert_node Less (Node its ch) x m = Inr (Node (its[i := x]) ch, Some (its ! i))"
  by (simp add: insert_node.simps)

lemma insert_leaf:
  "items_find Less its x = (i, False) \<Longrightarrow> ch = [] \<Longrightarrow>
   insert_node Less (Node its ch) x m = Inr (Node (insertAt its i x) ch, None)"
  by (simp add: insert_node.simps)

lemma insert_nosplit:
  "items_find Less its x = (i, False) \<Longrightarrow> i < length ch \<Longrightarrow>
   maybeSplitChild (Node its ch) i m = (Node its ch, False) \<Longrightarrow>
   insert_node Less (Node its ch) x m =
     (case insert_node Less (ch ! i) x m of
        Inl e \<Rightarrow> Inl e
      | Inr (c, out) \<Rightarrow> Inr (Node its (ch[i := c]), out))"
  by (subst insert_node.simps) (auto split: sum.splits)

lemma insert_split_eq:
  "items_find Less its x = (i, False) \<Longrightarrow> i < length ch \<Longrightarrow>
   maybeSplitChild (Node its ch) i m = (Node its1 ch1, True) \<Longrightarrow>
   \<not> Less x (its1 ! i) \<Longrightarrow> \<not> Less (its1 ! i) x \<Longrightarrow>
   insert_node Less (Node its ch) x m = Inr (Node (its1[i := x]) ch1, Some (its1 ! i))"
  by (subst insert_node.simps) (auto simp: Let_def split: sum.splits)

lemma insert_split_lo:
  "items_find Less its x = (i, False) \<Longrightarrow> i < length ch \<Longrightarrow>
   maybeSplitChild (Node its ch) i m = (Node its1 ch1, True) \<Longrightarrow>
   Less x (its1 ! i) \<Longrightarrow> i < length ch1 \<Longrightarrow>
   insert_node Less (Node its ch) x m =
     (case insert_node Less (ch1 ! i) x m of
        Inl e \<Rightarrow> Inl e
      | Inr (c, out) \<Rightarrow> Inr (Node its1 (ch1[i := c]), out))"
  by (subst insert_node.simps) (auto simp: Let_def split: sum.splits)

lemma insert_split_hi:
  "items_find Less its x = (i, False) \<Longrightarrow> i < length ch \<Longrightarrow>
   maybeSplitChild (Node its ch) i m = (Node its1 ch1, True) \<Longrightarrow>
   \<not> Less x (its1 ! i) \<Longrightarrow> Less (its1 ! i) x \<Longrightarrow> Suc i < length ch1 \<Longrightarrow>
   insert_node Less (Node its ch) x m =
     (case insert_node Less (ch1 ! Suc i) x m of
        Inl e \<Rightarrow> Inl e
      | Inr (c, out) \<Rightarrow> Inr (Node its1 (ch1[Suc i := c]), out))"
  by (subst insert_node.simps) (auto simp: Let_def split: sum.splits)

definition insert_ok ::
  "('a \<Rightarrow> 'a \<Rightarrow> bool) \<Rightarrow> 'a node \<Rightarrow> 'a \<Rightarrow> nat \<Rightarrow> bool" where
  "insert_ok Less n x m \<longleftrightarrow>
     (\<exists>n' out. insert_node Less n x m = Inr (n', out) \<and> wf_node n' \<and>
        insert_spec Less x (inorder n) (inorder n') out)"

lemma insert_ok_descend:
  assumes T: "mid_trans V Less" and wf: "wf_node (Node its ch)"
    and len: "length ch = Suc (length its)" and j: "j \<le> length its"
    and S: "sorted_wrt Less (inorder (Node its ch))" and V: "\<forall>a \<in> set (inorder (Node its ch)). V a"
    and Bl: "j = 0 \<or> Less (its ! (j - 1)) x" and Br: "j = length its \<or> Less x (its ! j)"
    and IH: "insert_ok Less (ch ! j) x m"
  shows "\<exists>n' out.
           (case insert_node Less (ch ! j) x m of
              Inl e \<Rightarrow> Inl e
            | Inr (c, out) \<Rightarrow> Inr (Node its (ch[j := c]), out)) = Inr (n', out) \<and>
           wf_node n' \<and> insert_spec Less x (inorder (Node its ch)) (inorder n') out"
proof -
  from IH obtain c out where I: "insert_node Less (ch ! j) x m = Inr (c, out)"
    and wfc: "wf_node c" and C: "insert_spec Less x (inorder (ch ! j)) (inorder c) out"
    unfolding insert_ok_def by blast
  from descend_spec [OF T wf len j S V Bl Br wfc C] I show ?thesis by simp
qed

lemma insert_correct:
  assumes T: "mid_trans V Less" and m: "0 < m"
  shows "wf_node n \<Longrightarrow> sorted_wrt Less (inorder n) \<Longrightarrow> \<forall>a \<in> set (inorder n). V a \<Longrightarrow>
         insert_ok Less n x m"
proof (induction "nsize n" arbitrary: n rule: less_induct)
  case less
  obtain its ch where n: "n = Node its ch" by (cases n)
  note wf = less.prems(1) [unfolded n] and S = less.prems(2) [unfolded n]
    and V = less.prems(3) [unfolded n]
  have Sits: "sorted_wrt Less its"
    using S sorted_items_inter [of Less its "map inorder ch"] by simp
  have Vits: "\<forall>a \<in> set its. V a"
    using V set_items_inter [of its "map inorder ch"] by auto
  obtain i b where F: "items_find Less its x = (i, b)" by (cases "items_find Less its x")
  show ?case
  proof (cases b)
    case True
    have FT: "items_find Less its x = (i, True)" using F True by simp
    from items_find_found [OF T Sits Vits FT]
    have "i < length its" "\<not> Less x (its ! i)" "\<not> Less (its ! i) x" by auto
    from replace_item_spec [OF wf this] insert_found [OF FT, of ch m]
    show ?thesis unfolding insert_ok_def n by blast
  next
    case False
    have FF: "items_find Less its x = (i, False)" using F False by simp
    from items_find_missing [OF T Sits Vits FF]
    have i: "i \<le> length its" and lo: "\<forall>k<i. Less (its ! k) x"
      and hi: "\<forall>k. i \<le> k \<and> k < length its \<longrightarrow> Less x (its ! k)" by auto
    show ?thesis
    proof (cases "ch = []")
      case True
      have "\<forall>a \<in> set (take i its). Less a x"
        using lo i by (auto simp: in_set_conv_nth)
      moreover have "\<forall>b \<in> set (drop i its). Less x b"
        using hi i by (auto simp: in_set_conv_nth)
      ultimately have "inserted Less x its (insertAt its i x)"
        unfolding inserted_def insertAt_def
        by (metis append_take_drop_id)
      with True insert_leaf [OF FF True, of m] show ?thesis
        unfolding insert_ok_def n by (simp add: insert_spec_def)
    next
      case ne: False
      with wf have len: "length ch = Suc (length its)" by simp
      have il: "i < length ch" using len i by simp
      have Bl: "i = 0 \<or> Less (its ! (i - 1)) x" using lo by (cases i) auto
      have Br: "i = length its \<or> Less x (its ! i)" using hi i by auto
      show ?thesis
      proof (cases "length (items (ch ! i)) < m")
        case True
        note M = maybeSplitChild_keeps [OF True, of its]
        have "nsize (ch ! i) < nsize n" unfolding n by (rule nsize_nth [OF il])
        moreover note cf = child_facts [OF wf len i S V]
        ultimately have IH: "insert_ok Less (ch ! i) x m"
          using less.hyps by blast
        from insert_ok_descend [OF T wf len i S V Bl Br IH] insert_nosplit [OF FF il M]
        show ?thesis unfolding insert_ok_def n by simp
      next
        case big: False
        from maybeSplitChild_splits [OF wf len i m big] obtain first item second where
          M: "maybeSplitChild (Node its ch) i m =
             (Node (insertAt its i item) (take i ch @ first # second # drop (Suc i) ch), True)"
          and wff: "wf_node first" and wfs: "wf_node second"
          and ci: "inorder (ch ! i) = inorder first @ item # inorder second"
          by blast
        define its1 where "its1 = insertAt its i item"
        define ch1 where "ch1 = take i ch @ first # second # drop (Suc i) ch"
        note M1 = M [folded its1_def ch1_def]
        have io: "inorder (Node its1 ch1) = inorder (Node its ch)"
          unfolding its1_def ch1_def by (rule inorder_split_node [OF len i ci])
        have len1: "length ch1 = Suc (length its1)"
          using len i by (simp add: its1_def ch1_def)
        have wf1: "wf_node (Node its1 ch1)"
          using wf wff wfs len1 by (auto simp: ch1_def dest: in_set_takeD in_set_dropD)
        have S1: "sorted_wrt Less (inorder (Node its1 ch1))" using S by (simp only: io)
        have V1: "\<forall>a \<in> set (inorder (Node its1 ch1)). V a" using V by (simp only: io)
        have i1: "i \<le> length its1" "Suc i \<le> length its1" using i by (simp_all add: its1_def)
        have at: "its1 ! i = item" unfolding its1_def by (rule insertAt_nth_eq [OF i])
        have sz: "\<And>j. j < length ch1 \<Longrightarrow> nsize (ch1 ! j) < nsize n"
          using maybeSplitChild_nsize [OF il M1] unfolding n by simp
        show ?thesis
        proof (cases "Less x item")
          case True
          have Bl1: "i = 0 \<or> Less (its1 ! (i - 1)) x"
            using Bl i by (cases i) (auto simp: its1_def insertAt_nth_lt)
          have Br1: "i = length its1 \<or> Less x (its1 ! i)" using True at by simp
          have "i < length ch1" using len1 i1 by simp
          from sz [OF this] child_facts [OF wf1 len1 i1(1) S1 V1]
          have IH: "insert_ok Less (ch1 ! i) x m" using less.hyps by blast
          from insert_ok_descend [OF T wf1 len1 i1(1) S1 V1 Bl1 Br1 IH]
            insert_split_lo [OF FF il M1] True at \<open>i < length ch1\<close>
          show ?thesis unfolding insert_ok_def n io by simp
        next
          case nlo: False
          show ?thesis
          proof (cases "Less item x")
            case True
            have Bl1: "Suc i = 0 \<or> Less (its1 ! (Suc i - 1)) x" using True at by simp
            have Br1: "Suc i = length its1 \<or> Less x (its1 ! Suc i)"
            proof (cases "i = length its")
              case True then show ?thesis by (simp add: its1_def)
            next
              case False
              with i have "i < length its" by simp
              with Br have "Less x (its ! i)" "its1 ! Suc i = its ! i"
                by (auto simp: its1_def insertAt_nth_gt)
              then show ?thesis by simp
            qed
            have lt: "Suc i < length ch1" using len1 i1 by simp
            from sz [OF this] child_facts [OF wf1 len1 i1(2) S1 V1]
            have IH: "insert_ok Less (ch1 ! Suc i) x m" using less.hyps by blast
            from insert_ok_descend [OF T wf1 len1 i1(2) S1 V1 Bl1 Br1 IH]
              insert_split_hi [OF FF il M1] nlo True at lt
            show ?thesis unfolding insert_ok_def n io by simp
          next
            case nhi: False
            have "i < length its1" using i1 by simp
            from replace_item_spec [OF wf1 this, of Less x] nlo nhi at
              insert_split_eq [OF FF il M1]
            show ?thesis unfolding insert_ok_def n io by simp
          qed
        qed
      qed
    qed
  qed
qed

definition New :: "nat \<Rightarrow> panic + 'a BTree" where
  "New d = (if d \<le> 1 then Inl BadDegree else Inr \<lparr>degree = d, tlength = 0, root = None\<rparr>)"

definition tree_items :: "'a BTree \<Rightarrow> 'a list" where
  "tree_items t = (case root t of None \<Rightarrow> [] | Some r \<Rightarrow> inorder r)"

definition tree_wf :: "'a BTree \<Rightarrow> bool" where
  "tree_wf t \<longleftrightarrow> 2 \<le> degree t \<and> (case root t of None \<Rightarrow> True | Some r \<Rightarrow> wf_node r)"

lemma inserted_sorted:
  assumes "inserted Less x xs ys" "sorted_wrt Less xs"
  shows "sorted_wrt Less ys"
proof -
  from assms(1) obtain l r where *: "xs = l @ r" "ys = l @ x # r"
    "\<forall>a \<in> set l. Less a x" "\<forall>b \<in> set r. Less x b"
    unfolding inserted_def by blast
  with assms(2) show ?thesis by (auto simp: sorted_wrt_append)
qed

lemma inserted_set: "inserted Less x xs ys \<Longrightarrow> set ys = insert x (set xs)"
  unfolding inserted_def by auto

lemma inserted_length: "inserted Less x xs ys \<Longrightarrow> length ys = Suc (length xs)"
  unfolding inserted_def by auto

lemma inserted_comparable: "inserted Less x xs ys \<Longrightarrow> a \<in> set xs \<Longrightarrow> Less a x \<or> Less x a"
  unfolding inserted_def by auto

lemma replaced_member: "replaced Less x y xs ys \<Longrightarrow> y \<in> set xs \<and> \<not> Less x y \<and> \<not> Less y x"
  unfolding replaced_def by auto

lemma replaced_length: "replaced Less x y xs ys \<Longrightarrow> length ys = length xs"
  unfolding replaced_def by auto

lemma replaced_set_subset: "replaced Less x y xs ys \<Longrightarrow> set ys \<subseteq> insert x (set xs) \<and> x \<in> set ys"
  unfolding replaced_def by auto

lemma ReplaceOrInsert_correct:
  assumes T: "mid_trans V Less" and wf: "tree_wf t"
    and S: "sorted_wrt Less (tree_items t)" and V: "\<forall>a \<in> set (tree_items t). V a"
  shows "\<exists>t' out. ReplaceOrInsert Less t x = Inr (t', out) \<and> tree_wf t' \<and> degree t' = degree t \<and>
           insert_spec Less x (tree_items t) (tree_items t') out \<and>
           tlength t' = (if out = None then tlength t + 1 else tlength t)"
proof (cases "root t")
  case None
  have "inserted Less x [] [x]" unfolding inserted_def by simp
  with None wf show ?thesis
    by (simp add: ReplaceOrInsert_def tree_wf_def tree_items_def insert_spec_def)
next
  case (Some r)
  from wf Some have d: "2 \<le> degree t" and wfr: "wf_node r" by (simp_all add: tree_wf_def)
  from d have m: "0 < maxItems t" by (simp add: maxItems_def)
  define r1 where "r1 = (if length (items r) \<ge> maxItems t then
                       (let (oldroot, item2, second) = split r (maxItems t div 2)
                        in Node [item2] [oldroot, second])
                     else r)"
  have r1: "wf_node r1 \<and> inorder r1 = inorder r"
  proof (cases "length (items r) \<ge> maxItems t")
    case False
    with wfr show ?thesis by (simp add: r1_def)
  next
    case True
    obtain oldroot item2 second where sp: "split r (maxItems t div 2) = (oldroot, item2, second)"
      by (cases "split r (maxItems t div 2)")
    have "maxItems t div 2 < length (items r)" using True m by simp
    from split_inorder [OF wfr this sp] True sp show ?thesis by (simp add: r1_def)
  qed
  from S V Some r1 have S1: "sorted_wrt Less (inorder r1)" and V1: "\<forall>a \<in> set (inorder r1). V a"
    by (simp_all add: tree_items_def)
  from insert_correct [OF T m conjunct1 [OF r1] S1 V1, of x]
  obtain r2 out where I: "insert_node Less r1 x (maxItems t) = Inr (r2, out)" and wf2: "wf_node r2"
    and sp: "insert_spec Less x (inorder r1) (inorder r2) out"
    unfolding insert_ok_def by blast
  have "ReplaceOrInsert Less t x =
      Inr (t\<lparr>root := Some r2, tlength := (if out = None then tlength t + 1 else tlength t)\<rparr>, out)"
    using Some I by (simp add: ReplaceOrInsert_def r1_def [symmetric])
  with d wf2 sp r1 Some show ?thesis
    by (simp add: tree_wf_def tree_items_def)
qed

lemma BTree_Get_correct:
  assumes T: "mid_trans V Less" and wf: "tree_wf t"
    and S: "sorted_wrt Less (tree_items t)" and V: "\<forall>a \<in> set (tree_items t). V a"
  shows "\<exists>r. BTree_Get Less t key = Inr r \<and> found_spec Less (tree_items t) key r"
proof (cases "root t")
  case None
  then show ?thesis by (simp add: BTree_Get_def tree_items_def found_spec_def)
next
  case (Some r)
  with wf S V have "wf_node r" "sorted_wrt Less (inorder r)" "\<forall>a \<in> set (inorder r). V a"
    by (simp_all add: tree_wf_def tree_items_def)
  from get_correct [OF T this, of key] Some show ?thesis
    by (simp add: BTree_Get_def tree_items_def)
qed

subsection \<open>Loading a sequence of records\<close>

text \<open>
  Every loader creates the tree with \<^verbatim>\<open>btree.New(4)\<close> and calls \<^verbatim>\<open>ReplaceOrInsert\<close> once for each
  record it accepts; \<open>build\<close> is that sequence of calls, and \<open>pairwise_apart\<close> says that any two
  records of a list, at different positions, are ordered one way or the other by the comparison.
\<close>

fun insert_all :: "('a \<Rightarrow> 'a \<Rightarrow> bool) \<Rightarrow> 'a BTree \<Rightarrow> 'a list \<Rightarrow> panic + 'a BTree" where
  "insert_all Less t [] = Inr t"
| "insert_all Less t (x # xs) =
     (case ReplaceOrInsert Less t x of
        Inl e \<Rightarrow> Inl e
      | Inr (t', out) \<Rightarrow> insert_all Less t' xs)"

definition build :: "('a \<Rightarrow> 'a \<Rightarrow> bool) \<Rightarrow> 'a list \<Rightarrow> panic + 'a BTree" where
  "build Less xs = (case New 4 of Inl e \<Rightarrow> Inl e | Inr t \<Rightarrow> insert_all Less t xs)"

definition pairwise_apart :: "('a \<Rightarrow> 'a \<Rightarrow> bool) \<Rightarrow> 'a list \<Rightarrow> bool" where
  "pairwise_apart Less xs \<longleftrightarrow> sorted_wrt (\<lambda>a b. Less a b \<or> Less b a) xs"

lemma items_find_bound:
  assumes "items_find Less s x = (i, b)"
  shows "i \<le> length s \<and> (b \<longrightarrow> i < length s)"
proof -
  define r where "r = Search (length s) (\<lambda>i. Less x (s ! i))"
  have "r \<le> length s"
    using Search_loop_range [of 0 "length s"] unfolding r_def Search_def by simp
  moreover note F' = assms [unfolded items_find_def Let_def, folded r_def]
  from F' have "(b \<and> 0 < r \<and> i = r - 1) \<or> (\<not> b \<and> i = r)"
    by (auto split: if_splits)
  ultimately show ?thesis by auto
qed

lemma wf_node_update_child:
  "wf_node (Node its ch) \<Longrightarrow> wf_node c \<Longrightarrow> wf_node (Node its (ch[j := c]))"
  by (auto dest: set_update_subset_insert [THEN subsetD])

lemma insert_total:
  assumes m: "0 < m"
  shows "wf_node n \<Longrightarrow> \<exists>n' out. insert_node Less n x m = Inr (n', out) \<and> wf_node n'"
proof (induction "nsize n" arbitrary: n rule: less_induct)
  case less
  obtain its ch where n: "n = Node its ch" by (cases n)
  note wf = less.prems [unfolded n]
  obtain i b where F: "items_find Less its x = (i, b)" by (cases "items_find Less its x")
  from items_find_bound [OF F] have i: "i \<le> length its" and ib: "b \<Longrightarrow> i < length its" by auto
  show ?case
  proof (cases b)
    case True
    have FT: "items_find Less its x = (i, True)" using F True by simp
    from insert_found [OF FT, of ch m] wf show ?thesis unfolding n by simp
  next
    case False
    have FF: "items_find Less its x = (i, False)" using F False by simp
    show ?thesis
    proof (cases "ch = []")
      case True
      with insert_leaf [OF FF True, of m] show ?thesis unfolding n by simp
    next
      case ne: False
      with wf have len: "length ch = Suc (length its)" by simp
      have il: "i < length ch" using len i by simp
      show ?thesis
      proof (cases "length (items (ch ! i)) < m")
        case True
        note M = maybeSplitChild_keeps [OF True, of its]
        have "nsize (ch ! i) < nsize n" unfolding n by (rule nsize_nth [OF il])
        moreover have "wf_node (ch ! i)" using wf il by simp
        ultimately obtain c out where I: "insert_node Less (ch ! i) x m = Inr (c, out)"
          and wfc: "wf_node c" using less.hyps by blast
        from insert_nosplit [OF FF il M] I wf_node_update_child [OF wf wfc, of i]
        show ?thesis unfolding n by simp
      next
        case big: False
        from maybeSplitChild_splits [OF wf len i m big] obtain first item second where
          M: "maybeSplitChild (Node its ch) i m =
             (Node (insertAt its i item) (take i ch @ first # second # drop (Suc i) ch), True)"
          and wff: "wf_node first" and wfs: "wf_node second"
          by blast
        define its1 where "its1 = insertAt its i item"
        define ch1 where "ch1 = take i ch @ first # second # drop (Suc i) ch"
        note M1 = M [folded its1_def ch1_def]
        have len1: "length ch1 = Suc (length its1)"
          using len i by (simp add: its1_def ch1_def)
        have wf1: "wf_node (Node its1 ch1)"
          using wf wff wfs len1 by (auto simp: ch1_def dest: in_set_takeD in_set_dropD)
        have i1: "i < length ch1" "Suc i < length ch1" using i len1 by (simp_all add: its1_def)
        have sz: "\<And>j. j < length ch1 \<Longrightarrow> nsize (ch1 ! j) < nsize n"
          using maybeSplitChild_nsize [OF il M1] unfolding n by simp
        have wfj: "\<And>j. j < length ch1 \<Longrightarrow> wf_node (ch1 ! j)"
          using wf1 by simp
        show ?thesis
        proof (cases "Less x (its1 ! i)")
          case True
          from sz [OF i1(1)] wfj [OF i1(1)] obtain c out where
            I: "insert_node Less (ch1 ! i) x m = Inr (c, out)" and wfc: "wf_node c"
            using less.hyps by blast
          from insert_split_lo [OF FF il M1 True i1(1)] I wf_node_update_child [OF wf1 wfc, of i]
          show ?thesis unfolding n by simp
        next
          case nlo: False
          show ?thesis
          proof (cases "Less (its1 ! i) x")
            case True
            from sz [OF i1(2)] wfj [OF i1(2)] obtain c out where
              I: "insert_node Less (ch1 ! Suc i) x m = Inr (c, out)" and wfc: "wf_node c"
              using less.hyps by blast
            from insert_split_hi [OF FF il M1 nlo True i1(2)] I
              wf_node_update_child [OF wf1 wfc, of "Suc i"]
            show ?thesis unfolding n by simp
          next
            case nhi: False
            from insert_split_eq [OF FF il M1 nlo nhi] wf1
            show ?thesis unfolding n by simp
          qed
        qed
      qed
    qed
  qed
qed

lemma ReplaceOrInsert_total:
  assumes wf: "tree_wf t"
  shows "\<exists>t' out. ReplaceOrInsert Less t x = Inr (t', out) \<and> tree_wf t' \<and> degree t' = degree t"
proof (cases "root t")
  case None
  with wf show ?thesis by (simp add: ReplaceOrInsert_def tree_wf_def)
next
  case (Some r)
  from wf Some have d: "2 \<le> degree t" and wfr: "wf_node r" by (simp_all add: tree_wf_def)
  from d have m: "0 < maxItems t" by (simp add: maxItems_def)
  define r1 where "r1 = (if length (items r) \<ge> maxItems t then
                       (let (oldroot, item2, second) = split r (maxItems t div 2)
                        in Node [item2] [oldroot, second])
                     else r)"
  have r1: "wf_node r1"
  proof (cases "length (items r) \<ge> maxItems t")
    case False
    with wfr show ?thesis by (simp add: r1_def)
  next
    case True
    obtain oldroot item2 second where sp: "split r (maxItems t div 2) = (oldroot, item2, second)"
      by (cases "split r (maxItems t div 2)")
    have "maxItems t div 2 < length (items r)" using True m by simp
    from split_inorder [OF wfr this sp] True sp show ?thesis by (simp add: r1_def)
  qed
  from insert_total [OF m r1, of Less x]
  obtain r2 out where I: "insert_node Less r1 x (maxItems t) = Inr (r2, out)" and wf2: "wf_node r2"
    by blast
  have "ReplaceOrInsert Less t x =
      Inr (t\<lparr>root := Some r2, tlength := (if out = None then tlength t + 1 else tlength t)\<rparr>, out)"
    using Some I by (simp add: ReplaceOrInsert_def r1_def [symmetric])
  with d wf2 show ?thesis by (simp add: tree_wf_def)
qed

lemma insert_all_total:
  "tree_wf t \<Longrightarrow> \<exists>t'. insert_all Less t xs = Inr t' \<and> tree_wf t' \<and> degree t' = degree t"
proof (induction xs arbitrary: t)
  case Nil
  then show ?case by simp
next
  case (Cons x xs)
  from ReplaceOrInsert_total [OF Cons.prems, of Less x] obtain t1 out where
    R: "ReplaceOrInsert Less t x = Inr (t1, out)" and wf1: "tree_wf t1" and d: "degree t1 = degree t"
    by blast
  from Cons.IH [OF wf1] R d show ?case by simp
qed

lemma New_4: "New 4 = Inr \<lparr>degree = 4, tlength = 0, root = None\<rparr>"
  by (simp add: New_def)

lemma tree_wf_empty: "tree_wf \<lparr>degree = 4, tlength = 0, root = None\<rparr>"
  by (simp add: tree_wf_def)

lemma tree_items_empty [simp]: "tree_items \<lparr>degree = d, tlength = l, root = None\<rparr> = []"
  by (simp add: tree_items_def)

lemma sorted_wrt_apart:
  assumes "sorted_wrt Less xs" "a \<in> set xs" "b \<in> set xs" "a \<noteq> b"
  shows "Less a b \<or> Less b a"
proof -
  from assms(2,3) obtain i j where i: "i < length xs" "xs ! i = a" and j: "j < length xs" "xs ! j = b"
    by (auto simp: in_set_conv_nth)
  with assms(4) have "i \<noteq> j" by auto
  then consider "i < j" | "j < i" by linarith
  then show ?thesis
  proof cases
    case 1
    from sorted_wrt_nth_less [OF assms(1) 1 j(1)] i j show ?thesis by simp
  next
    case 2
    from sorted_wrt_nth_less [OF assms(1) 2 i(1)] i j show ?thesis by simp
  qed
qed

lemma insert_all_correct:
  assumes T: "mid_trans V Less"
  shows "tree_wf t \<Longrightarrow> sorted_wrt Less (tree_items t) \<Longrightarrow> \<forall>a \<in> set (tree_items t). V a \<Longrightarrow>
         \<forall>x \<in> set xs. V x \<Longrightarrow> pairwise_apart Less xs \<Longrightarrow>
         \<forall>x \<in> set xs. \<forall>a \<in> set (tree_items t). Less a x \<or> Less x a \<Longrightarrow>
         \<exists>t'. insert_all Less t xs = Inr t' \<and> tree_wf t' \<and> sorted_wrt Less (tree_items t') \<and>
              set (tree_items t') = set (tree_items t) \<union> set xs \<and>
              tlength t' = tlength t + length xs \<and> degree t' = degree t"
proof (induction xs arbitrary: t)
  case Nil
  then show ?case by simp
next
  case (Cons x xs)
  from ReplaceOrInsert_correct [OF T Cons.prems(1,2,3), of x] obtain t1 out where
    R: "ReplaceOrInsert Less t x = Inr (t1, out)" and wf1: "tree_wf t1"
    and d1: "degree t1 = degree t"
    and sp: "insert_spec Less x (tree_items t) (tree_items t1) out"
    and l1: "tlength t1 = (if out = None then tlength t + 1 else tlength t)"
    by blast
  have out: "out = None"
  proof (cases out)
    case None
    then show ?thesis .
  next
    case (Some y)
    with sp have "replaced Less x y (tree_items t) (tree_items t1)" by (simp add: insert_spec_def)
    from replaced_member [OF this] Cons.prems(6) show ?thesis by auto
  qed
  with sp have ins: "inserted Less x (tree_items t) (tree_items t1)" by (simp add: insert_spec_def)
  note s1 = inserted_sorted [OF ins Cons.prems(2)]
  note set1 = inserted_set [OF ins]
  have V1: "\<forall>a \<in> set (tree_items t1). V a" using set1 Cons.prems(3,4) by simp
  have V2: "\<forall>x \<in> set xs. V x" using Cons.prems(4) by simp
  have pa: "pairwise_apart Less xs" and ax: "\<forall>y \<in> set xs. Less x y \<or> Less y x"
    using Cons.prems(5) by (auto simp: pairwise_apart_def)
  have cmp: "\<forall>z \<in> set xs. \<forall>a \<in> set (tree_items t1). Less a z \<or> Less z a"
    using set1 ax Cons.prems(6) by auto
  from Cons.IH [OF wf1 s1 V1 V2 pa cmp] obtain t' where
    I: "insert_all Less t1 xs = Inr t'" and r: "tree_wf t'" "sorted_wrt Less (tree_items t')"
      "set (tree_items t') = set (tree_items t1) \<union> set xs"
      "tlength t' = tlength t1 + length xs" "degree t' = degree t1"
    by blast
  from R I have "insert_all Less t (x # xs) = Inr t'" by simp
  with r set1 out l1 d1 show ?case by auto
qed

lemma build_correct:
  assumes T: "mid_trans V Less" and V: "\<forall>x \<in> set xs. V x" and P: "pairwise_apart Less xs"
  shows "\<exists>t. build Less xs = Inr t \<and> tree_wf t \<and> sorted_wrt Less (tree_items t) \<and>
             set (tree_items t) = set xs \<and> Len t = length xs"
proof -
  let ?e = "\<lparr>degree = 4, tlength = 0, root = None\<rparr> :: 'a BTree"
  from insert_all_correct [OF T, of ?e xs] V P
  obtain t where "insert_all Less ?e xs = Inr t" "tree_wf t" "sorted_wrt Less (tree_items t)"
    "set (tree_items t) = set xs" "tlength t = length xs"
    by (auto simp: tree_wf_def)
  then show ?thesis by (simp add: build_def New_4 Len_def)
qed

text \<open>
  Records that are intervals \<open>[lo, hi]\<close>, compared by \<open>hi a < lo b\<close>: lookup of a point and
  replacement of an overlapping record.
\<close>

lemma interval_mid_trans:
  fixes lo hi :: "'a \<Rightarrow> 'k :: linorder"
  assumes L: "\<And>a b. Less a b \<longleftrightarrow> hi a < lo b"
  shows "mid_trans (\<lambda>a. lo a \<le> hi a) Less"
  unfolding mid_trans_def L by auto

lemma interval_lookup:
  fixes lo hi :: "'a \<Rightarrow> 'k :: linorder"
  assumes L: "\<And>a b. Less a b \<longleftrightarrow> hi a < lo b"
    and wf: "tree_wf t" and S: "sorted_wrt Less (tree_items t)"
    and V: "\<forall>a \<in> set (tree_items t). lo a \<le> hi a"
    and key: "lo key = p" "hi key = p"
  shows "(\<forall>r \<in> set (tree_items t). lo r \<le> p \<and> p \<le> hi r \<longrightarrow> BTree_Get Less t key = Inr (Some r)) \<and>
         ((\<forall>r \<in> set (tree_items t). \<not> (lo r \<le> p \<and> p \<le> hi r)) \<longrightarrow> BTree_Get Less t key = Inr None)"
proof -
  have T: "mid_trans (\<lambda>a. lo a \<le> hi a) Less"
    by (rule interval_mid_trans [of Less hi lo]) (rule L)
  from BTree_Get_correct [OF T wf S V, of key]
  obtain res where G: "BTree_Get Less t key = Inr res"
    and F: "found_spec Less (tree_items t) key res" by blast
  define xs where "xs = tree_items t"
  note F' = F [folded xs_def]
  note S' = S [folded xs_def]
  have goal: "(\<forall>r \<in> set xs. lo r \<le> p \<and> p \<le> hi r \<longrightarrow> res = Some r) \<and>
         ((\<forall>r \<in> set xs. \<not> (lo r \<le> p \<and> p \<le> hi r)) \<longrightarrow> res = None)"
  proof (cases res)
    case None
    with F' have "\<forall>a \<in> set xs. hi a < p \<or> p < lo a"
      by (simp add: found_spec_def L key)
    then have "\<forall>r \<in> set xs. \<not> (lo r \<le> p \<and> p \<le> hi r)" by (meson not_le)
    with None show ?thesis by simp
  next
    case (Some y)
    with F' have y: "y \<in> set xs" "lo y \<le> p" "p \<le> hi y"
      by (auto simp: found_spec_def L key)
    have "r = y" if r: "r \<in> set xs" "lo r \<le> p" "p \<le> hi r" for r
    proof (rule ccontr)
      assume "r \<noteq> y"
      from sorted_wrt_apart [OF S' r(1) y(1) this] have "hi r < lo y \<or> hi y < lo r"
        by (simp add: L)
      with r(2,3) y(2,3) show False by (meson le_less_trans not_le order_trans)
    qed
    with Some y show ?thesis by blast
  qed
  then show ?thesis unfolding G xs_def by simp
qed

lemma replaced_unique_sorted:
  fixes lo hi :: "'a \<Rightarrow> 'k :: linorder"
  assumes L: "\<And>a b. Less a b \<longleftrightarrow> hi a < lo b"
    and S: "sorted_wrt Less xs" and V: "\<forall>a \<in> set xs. lo a \<le> hi a"
    and R: "replaced Less x y xs ys"
    and U: "\<forall>r \<in> set xs. \<not> Less r x \<and> \<not> Less x r \<longrightarrow> r = y"
  shows "sorted_wrt Less ys"
proof -
  from R obtain l r where xs: "xs = l @ y # r" and ys: "ys = l @ x # r"
    and ov: "\<not> Less x y" "\<not> Less y x"
    unfolding replaced_def by blast
  from S xs have sl: "sorted_wrt Less l" and sr: "sorted_wrt Less r"
    and ly: "\<forall>a \<in> set l. Less a y" and yr: "\<forall>b \<in> set r. Less y b"
    and lr: "\<forall>a \<in> set l. \<forall>b \<in> set r. Less a b"
    by (auto simp: sorted_wrt_append)
  from V xs have Vy: "lo y \<le> hi y" by simp
  have lx: "Less a x" if a: "a \<in> set l" for a
  proof -
    from ly a have ay: "hi a < lo y" by (simp add: L)
    with Vy have "a \<noteq> y" by auto
    moreover from a xs have "a \<in> set xs" by simp
    ultimately have "Less a x \<or> Less x a" using U by blast
    moreover have "\<not> Less x a"
    proof
      assume "Less x a"
      then have "hi x < lo a" by (simp add: L)
      moreover from V a xs have "lo a \<le> hi a" by simp
      ultimately have "hi x < lo y" using ay by simp
      with ov(1) show False by (simp add: L)
    qed
    ultimately show ?thesis by simp
  qed
  have xr: "Less x b" if b: "b \<in> set r" for b
  proof -
    from yr b have yb: "hi y < lo b" by (simp add: L)
    from V b xs have Vb: "lo b \<le> hi b" by simp
    with yb Vy have "b \<noteq> y" by auto
    moreover from b xs have "b \<in> set xs" by simp
    ultimately have "Less b x \<or> Less x b" using U by blast
    moreover have "\<not> Less b x"
    proof
      assume "Less b x"
      then have "hi b < lo x" by (simp add: L)
      with Vb yb have "hi y < lo x" by simp
      with ov(2) show False by (simp add: L)
    qed
    ultimately show ?thesis by simp
  qed
  from sl sr lr lx xr show ?thesis unfolding ys by (auto simp: sorted_wrt_append)
qed

section \<open>Range tables and the country table\<close>

text \<open>
  \<^verbatim>\<open>Block\<close>, \<^verbatim>\<open>ASN\<close> and \<^verbatim>\<open>Country\<close> with their \<^verbatim>\<open>Less\<close> methods and the \<^verbatim>\<open>Get\<close> methods of \<^verbatim>\<open>Blocks\<close>,
  \<^verbatim>\<open>ASNs\<close> and \<^verbatim>\<open>Countries\<close>.  Addresses are \<^verbatim>\<open>uint32\<close>; a Go string is its sequence of bytes and
  \<^verbatim>\<open><\<close> on strings compares them byte by byte, which is the lexicographic order on \<open>string\<close>.
\<close>

record Block =
  LowIP :: "32 word"
  HighIP :: "32 word"
  LocId :: "32 word"

definition Block_Less :: "Block \<Rightarrow> Block \<Rightarrow> bool" where
  "Block_Less block than \<longleftrightarrow> Block.HighIP block < Block.LowIP than"

definition Blocks_Get :: "Block BTree \<Rightarrow> 32 word \<Rightarrow> panic + Block option" where
  "Blocks_Get blocks IP =
     BTree_Get Block_Less blocks \<lparr>Block.LowIP = IP, Block.HighIP = IP, LocId = 0\<rparr>"

record ASN =
  LowIP :: "32 word"
  HighIP :: "32 word"
  ASN :: string

definition ASN_Less :: "ASN \<Rightarrow> ASN \<Rightarrow> bool" where
  "ASN_Less asn than \<longleftrightarrow> ASN.HighIP asn < ASN.LowIP than"

definition ASNs_Get :: "ASN BTree \<Rightarrow> 32 word \<Rightarrow> panic + ASN option" where
  "ASNs_Get asns IP = BTree_Get ASN_Less asns \<lparr>ASN.LowIP = IP, ASN.HighIP = IP, ASN = ''''\<rparr>"

record Country =
  Code :: string
  Name :: string

definition Country_Less :: "Country \<Rightarrow> Country \<Rightarrow> bool" where
  "Country_Less country than \<longleftrightarrow> Code country < Code than"

definition Countries_Get :: "Country BTree \<Rightarrow> string \<Rightarrow> panic + Country option" where
  "Countries_Get countries country_code =
     BTree_Get Country_Less countries \<lparr>Code = country_code, Name = ''''\<rparr>"


lemma interval_replace:
  fixes lo hi :: "'a \<Rightarrow> 'k :: linorder"
  assumes L: "\<And>a b. Less a b \<longleftrightarrow> hi a < lo b"
    and wf: "tree_wf t" and S: "sorted_wrt Less (tree_items t)"
    and V: "\<forall>a \<in> set (tree_items t). lo a \<le> hi a"
    and O: "\<exists>r \<in> set (tree_items t). lo r \<le> hi x \<and> lo x \<le> hi r"
  shows "\<exists>t' y. ReplaceOrInsert Less t x = Inr (t', Some y) \<and> tree_wf t' \<and>
           y \<in> set (tree_items t) \<and> lo y \<le> hi x \<and> lo x \<le> hi y \<and> Len t' = Len t \<and>
           set (tree_items t') = insert x (set (tree_items t) - {y}) \<and>
           ((\<forall>r \<in> set (tree_items t). lo r \<le> hi x \<and> lo x \<le> hi r \<longrightarrow> r = y) \<longrightarrow>
              sorted_wrt Less (tree_items t'))"
proof -
  have T: "mid_trans (\<lambda>a. lo a \<le> hi a) Less"
    by (rule interval_mid_trans [of Less hi lo]) (rule L)
  define xs where "xs = tree_items t"
  note S' = S [folded xs_def] and V' = V [folded xs_def] and O' = O [folded xs_def]
  from ReplaceOrInsert_correct [OF T wf S V, of x] obtain t' out where
    R: "ReplaceOrInsert Less t x = Inr (t', out)" and wf': "tree_wf t'"
    and sp: "insert_spec Less x xs (tree_items t') out"
    and len: "tlength t' = (if out = None then tlength t + 1 else tlength t)"
    unfolding xs_def by blast
  define ys where "ys = tree_items t'"
  note sp' = sp [folded ys_def]
  from O' obtain r0 where r0: "r0 \<in> set xs" "lo r0 \<le> hi x" "lo x \<le> hi r0" by blast
  have "out \<noteq> None"
  proof
    assume "out = None"
    with sp' have "inserted Less x xs ys" by (simp add: insert_spec_def)
    from inserted_comparable [OF this r0(1)] have "hi r0 < lo x \<or> hi x < lo r0" by (simp add: L)
    with r0(2,3) show False by (meson not_le)
  qed
  then obtain y where out: "out = Some y" by blast
  with sp' have rep: "replaced Less x y xs ys" by (simp add: insert_spec_def)
  from replaced_member [OF rep] have y: "y \<in> set xs" "lo y \<le> hi x" "lo x \<le> hi y"
    by (simp_all add: L not_less)
  from rep obtain l r where xs: "xs = l @ y # r" and ys: "ys = l @ x # r"
    unfolding replaced_def by blast
  from V' y(1) have Vy: "lo y \<le> hi y" by blast
  have "y \<notin> set l"
  proof
    assume "y \<in> set l"
    with S' xs have "Less y y" by (simp add: sorted_wrt_append)
    with Vy show False by (simp add: L)
  qed
  moreover have "y \<notin> set r"
  proof
    assume "y \<in> set r"
    with S' xs have "Less y y" by (simp add: sorted_wrt_append)
    with Vy show False by (simp add: L)
  qed
  ultimately have sets: "set ys = insert x (set xs - {y})" unfolding xs ys by auto
  have srt: "sorted_wrt Less ys" if U: "\<forall>r \<in> set xs. lo r \<le> hi x \<and> lo x \<le> hi r \<longrightarrow> r = y"
  proof (rule replaced_unique_sorted [of Less hi lo, OF L S' V' rep])
    show "\<forall>r \<in> set xs. \<not> Less r x \<and> \<not> Less x r \<longrightarrow> r = y"
      using U by (simp add: L not_less)
  qed
  from len out have "Len t' = Len t" by (simp add: Len_def)
  with R out wf' y sets srt show ?thesis unfolding xs_def ys_def by blast
qed

lemma Block_interval: "Block_Less a b \<longleftrightarrow> Block.HighIP a < Block.LowIP b"
  by (simp add: Block_Less_def)

lemma ASN_interval: "ASN_Less a b \<longleftrightarrow> ASN.HighIP a < ASN.LowIP b"
  by (simp add: ASN_Less_def)

lemma Country_interval: "Country_Less a b \<longleftrightarrow> Code a < Code b"
  by (simp add: Country_Less_def)

lemma Blocks_lookup:
  assumes "tree_wf t" "sorted_wrt Block_Less (tree_items t)"
    "\<forall>a \<in> set (tree_items t). Block.LowIP a \<le> Block.HighIP a"
  shows "(\<forall>r \<in> set (tree_items t). Block.LowIP r \<le> p \<and> p \<le> Block.HighIP r \<longrightarrow>
             Blocks_Get t p = Inr (Some r)) \<and>
         ((\<forall>r \<in> set (tree_items t). \<not> (Block.LowIP r \<le> p \<and> p \<le> Block.HighIP r)) \<longrightarrow>
             Blocks_Get t p = Inr None)"
  unfolding Blocks_Get_def
  by (rule interval_lookup [of Block_Less Block.HighIP Block.LowIP, OF Block_interval assms])
     simp_all

lemma ASNs_lookup:
  assumes "tree_wf t" "sorted_wrt ASN_Less (tree_items t)"
    "\<forall>a \<in> set (tree_items t). ASN.LowIP a \<le> ASN.HighIP a"
  shows "(\<forall>r \<in> set (tree_items t). ASN.LowIP r \<le> p \<and> p \<le> ASN.HighIP r \<longrightarrow>
             ASNs_Get t p = Inr (Some r)) \<and>
         ((\<forall>r \<in> set (tree_items t). \<not> (ASN.LowIP r \<le> p \<and> p \<le> ASN.HighIP r)) \<longrightarrow>
             ASNs_Get t p = Inr None)"
  unfolding ASNs_Get_def
  by (rule interval_lookup [of ASN_Less ASN.HighIP ASN.LowIP, OF ASN_interval assms])
     simp_all

lemma Countries_lookup:
  assumes "tree_wf t" "sorted_wrt Country_Less (tree_items t)"
  shows "(\<forall>r \<in> set (tree_items t). Code r \<le> c \<and> c \<le> Code r \<longrightarrow>
             Countries_Get t c = Inr (Some r)) \<and>
         ((\<forall>r \<in> set (tree_items t). \<not> (Code r \<le> c \<and> c \<le> Code r)) \<longrightarrow>
             Countries_Get t c = Inr None)"
  unfolding Countries_Get_def
  by (rule interval_lookup [of Country_Less Code Code, OF Country_interval assms])
     simp_all

lemma Blocks_build:
  assumes "\<forall>b \<in> set bs. Block.LowIP b \<le> Block.HighIP b" "pairwise_apart Block_Less bs"
  shows "\<exists>t. build Block_Less bs = Inr t \<and> tree_wf t \<and> sorted_wrt Block_Less (tree_items t) \<and>
             set (tree_items t) = set bs \<and> Len t = length bs"
  by (rule build_correct [OF interval_mid_trans [of Block_Less Block.HighIP Block.LowIP,
        OF Block_interval] assms])

lemma ASNs_build:
  assumes "\<forall>b \<in> set bs. ASN.LowIP b \<le> ASN.HighIP b" "pairwise_apart ASN_Less bs"
  shows "\<exists>t. build ASN_Less bs = Inr t \<and> tree_wf t \<and> sorted_wrt ASN_Less (tree_items t) \<and>
             set (tree_items t) = set bs \<and> Len t = length bs"
  by (rule build_correct [OF interval_mid_trans [of ASN_Less ASN.HighIP ASN.LowIP,
        OF ASN_interval] assms])

lemma distinct_codes_apart: "distinct (map Code cs) \<Longrightarrow> pairwise_apart Country_Less cs"
proof (induction cs)
  case Nil
  then show ?case by (simp add: pairwise_apart_def)
next
  case (Cons c cs)
  have "Code c < Code y \<or> Code y < Code c" if "y \<in> set cs" for y
  proof -
    from Cons.prems that have "Code c \<noteq> Code y" by auto
    then show ?thesis by (simp add: neq_iff)
  qed
  with Cons show ?case by (simp add: pairwise_apart_def Country_Less_def)
qed

lemma Countries_build:
  assumes "distinct (map Code cs)"
  shows "\<exists>t. build Country_Less cs = Inr t \<and> tree_wf t \<and> sorted_wrt Country_Less (tree_items t) \<and>
             set (tree_items t) = set cs \<and> Len t = length cs"
  by (rule build_correct [OF interval_mid_trans [of Country_Less Code Code,
        OF Country_interval] _ distinct_codes_apart [OF assms]]) simp

section \<open>Claims about the range index\<close>

text \<open>
  Claim C1.  Let a collection of block records and a collection of ASN records be loaded, each
  record with \<open>LowIP \<le> HighIP\<close> and any two records of a collection non-overlapping.  Then neither
  load panics, and for every point \<open>p\<close>: if \<open>p\<close> lies inside a stored range \<open>r\<close>, \<open>Get p\<close> returns
  exactly \<open>r\<close> (so \<open>r\<close> is the only stored range holding \<open>p\<close>), and if \<open>p\<close> lies outside every stored
  range, \<open>Get p\<close> returns nil.
\<close>

theorem range_lookup_correct:
  assumes "\<forall>b \<in> set bs. Block.LowIP b \<le> Block.HighIP b" and "pairwise_apart Block_Less bs"
    and "\<forall>a \<in> set ns. ASN.LowIP a \<le> ASN.HighIP a" and "pairwise_apart ASN_Less ns"
  shows "\<exists>blocks asns. build Block_Less bs = Inr blocks \<and> build ASN_Less ns = Inr asns \<and>
     (\<forall>p. (\<forall>r \<in> set bs. Block.LowIP r \<le> p \<and> p \<le> Block.HighIP r \<longrightarrow>
               Blocks_Get blocks p = Inr (Some r)) \<and>
          ((\<forall>r \<in> set bs. \<not> (Block.LowIP r \<le> p \<and> p \<le> Block.HighIP r)) \<longrightarrow>
               Blocks_Get blocks p = Inr None) \<and>
          (\<forall>r \<in> set ns. ASN.LowIP r \<le> p \<and> p \<le> ASN.HighIP r \<longrightarrow>
               ASNs_Get asns p = Inr (Some r)) \<and>
          ((\<forall>r \<in> set ns. \<not> (ASN.LowIP r \<le> p \<and> p \<le> ASN.HighIP r)) \<longrightarrow>
               ASNs_Get asns p = Inr None))"
proof -
  from Blocks_build [OF assms(1,2)] obtain blocks where
    B: "build Block_Less bs = Inr blocks" "tree_wf blocks"
       "sorted_wrt Block_Less (tree_items blocks)" "set (tree_items blocks) = set bs"
    by blast
  from ASNs_build [OF assms(3,4)] obtain asns where
    A: "build ASN_Less ns = Inr asns" "tree_wf asns"
       "sorted_wrt ASN_Less (tree_items asns)" "set (tree_items asns) = set ns"
    by blast
  have VB: "\<forall>a \<in> set (tree_items blocks). Block.LowIP a \<le> Block.HighIP a"
    using assms(1) B(4) by simp
  have VA: "\<forall>a \<in> set (tree_items asns). ASN.LowIP a \<le> ASN.HighIP a"
    using assms(3) A(4) by simp
  note LB = Blocks_lookup [OF B(2,3) VB, unfolded B(4)]
  note LA = ASNs_lookup [OF A(2,3) VA, unfolded A(4)]
  show ?thesis
  proof (intro exI conjI allI)
    show "build Block_Less bs = Inr blocks" by (rule B(1))
    show "build ASN_Less ns = Inr asns" by (rule A(1))
  next
    fix p
    from LB [of p] show "\<forall>r \<in> set bs. Block.LowIP r \<le> p \<and> p \<le> Block.HighIP r \<longrightarrow>
               Blocks_Get blocks p = Inr (Some r)" by (rule conjunct1)
    from LB [of p] show "(\<forall>r \<in> set bs. \<not> (Block.LowIP r \<le> p \<and> p \<le> Block.HighIP r)) \<longrightarrow>
               Blocks_Get blocks p = Inr None" by (rule conjunct2)
    from LA [of p] show "\<forall>r \<in> set ns. ASN.LowIP r \<le> p \<and> p \<le> ASN.HighIP r \<longrightarrow>
               ASNs_Get asns p = Inr (Some r)" by (rule conjunct1)
    from LA [of p] show "(\<forall>r \<in> set ns. \<not> (ASN.LowIP r \<le> p \<and> p \<le> ASN.HighIP r)) \<longrightarrow>
               ASNs_Get asns p = Inr None" by (rule conjunct2)
  qed
qed

theorem range_lookup_correct_witness:
  "\<exists>blocks asns.
     build Block_Less [\<lparr>Block.LowIP = 16777216, Block.HighIP = 16777471, LocId = 17\<rparr>,
                       \<lparr>Block.LowIP = 5, Block.HighIP = 6, LocId = 1\<rparr>] = Inr blocks \<and>
     build ASN_Less [\<lparr>ASN.LowIP = 16777216, ASN.HighIP = 16777471, ASN = ''AS15169 Google Inc.''\<rparr>]
        = Inr asns \<and>
     Blocks_Get blocks 16777300 =
        Inr (Some \<lparr>Block.LowIP = 16777216, Block.HighIP = 16777471, LocId = 17\<rparr>) \<and>
     Blocks_Get blocks 7 = Inr None \<and>
     ASNs_Get asns 16777216 =
        Inr (Some \<lparr>ASN.LowIP = 16777216, ASN.HighIP = 16777471, ASN = ''AS15169 Google Inc.''\<rparr>) \<and>
     ASNs_Get asns 16777472 = Inr None"
proof -
  let ?bs = "[\<lparr>Block.LowIP = 16777216, Block.HighIP = 16777471, LocId = 17\<rparr>,
              \<lparr>Block.LowIP = 5, Block.HighIP = 6, LocId = 1\<rparr>]"
  let ?ns = "[\<lparr>ASN.LowIP = 16777216, ASN.HighIP = 16777471, ASN = ''AS15169 Google Inc.''\<rparr>]"
  have 1: "\<forall>b \<in> set ?bs. Block.LowIP b \<le> Block.HighIP b" by simp
  have 2: "pairwise_apart Block_Less ?bs" by (simp add: pairwise_apart_def Block_Less_def)
  have 3: "\<forall>a \<in> set ?ns. ASN.LowIP a \<le> ASN.HighIP a" by simp
  have 4: "pairwise_apart ASN_Less ?ns" by (simp add: pairwise_apart_def)
  from range_lookup_correct [OF 1 2 3 4] obtain blocks asns where
    B: "build Block_Less ?bs = Inr blocks" and A: "build ASN_Less ?ns = Inr asns"
    and L: "\<And>p. (\<forall>r \<in> set ?bs. Block.LowIP r \<le> p \<and> p \<le> Block.HighIP r \<longrightarrow>
               Blocks_Get blocks p = Inr (Some r)) \<and>
          ((\<forall>r \<in> set ?bs. \<not> (Block.LowIP r \<le> p \<and> p \<le> Block.HighIP r)) \<longrightarrow>
               Blocks_Get blocks p = Inr None) \<and>
          (\<forall>r \<in> set ?ns. ASN.LowIP r \<le> p \<and> p \<le> ASN.HighIP r \<longrightarrow>
               ASNs_Get asns p = Inr (Some r)) \<and>
          ((\<forall>r \<in> set ?ns. \<not> (ASN.LowIP r \<le> p \<and> p \<le> ASN.HighIP r)) \<longrightarrow>
               ASNs_Get asns p = Inr None)"
    by blast
  from L [of 16777300] have a: "Blocks_Get blocks 16777300 =
        Inr (Some \<lparr>Block.LowIP = 16777216, Block.HighIP = 16777471, LocId = 17\<rparr>)" by simp
  from L [of 7] have b: "Blocks_Get blocks 7 = Inr None" by simp
  from L [of 16777216] have c: "ASNs_Get asns 16777216 =
        Inr (Some \<lparr>ASN.LowIP = 16777216, ASN.HighIP = 16777471, ASN = ''AS15169 Google Inc.''\<rparr>)"
    by simp
  from L [of 16777472] have d: "ASNs_Get asns 16777472 = Inr None" by simp
  from A B a b c d show ?thesis by blast
qed

text \<open>
  Claim C5.  The country table is the same container with the code as both ends of the interval:
  for entries with distinct codes, \<open>Get code\<close> returns the entry whose \<open>Code\<close> is exactly \<open>code\<close>, and
  nil when no entry has that code.  The witness is the table of \<open>FR\<close> and \<open>US\<close> of the claim, queried
  for \<open>FR\<close> and \<open>ZZ\<close>.
\<close>

theorem country_exact_match:
  assumes "distinct (map Code cs)"
  shows "\<exists>countries. build Country_Less cs = Inr countries \<and>
     (\<forall>code. (\<forall>c \<in> set cs. Code c = code \<longrightarrow> Countries_Get countries code = Inr (Some c)) \<and>
             ((\<forall>c \<in> set cs. Code c \<noteq> code) \<longrightarrow> Countries_Get countries code = Inr None))"
proof -
  from Countries_build [OF assms] obtain t where
    B: "build Country_Less cs = Inr t" "tree_wf t"
       "sorted_wrt Country_Less (tree_items t)" "set (tree_items t) = set cs"
    by blast
  note LC = Countries_lookup [OF B(2,3), unfolded B(4)]
  show ?thesis
  proof (intro exI conjI allI)
    show "build Country_Less cs = Inr t" by (rule B(1))
  next
    fix code
    from LC [of code] show "\<forall>c \<in> set cs. Code c = code \<longrightarrow> Countries_Get t code = Inr (Some c)"
      by simp
    have "\<forall>r \<in> set cs. \<not> (Code r \<le> code \<and> code \<le> Code r)" if "\<forall>c \<in> set cs. Code c \<noteq> code"
      using that by (metis antisym)
    with LC [of code]
    show "(\<forall>c \<in> set cs. Code c \<noteq> code) \<longrightarrow> Countries_Get t code = Inr None"
      by blast
  qed
qed

theorem country_exact_match_witness:
  "distinct (map Code [\<lparr>Code = ''FR'', Name = ''France''\<rparr>,
                       \<lparr>Code = ''US'', Name = [CHR 0xC3, CHR 0x89] @ ''tats-Unis''\<rparr>]) \<and>
   (\<exists>countries.
      build Country_Less [\<lparr>Code = ''FR'', Name = ''France''\<rparr>,
                          \<lparr>Code = ''US'', Name = [CHR 0xC3, CHR 0x89] @ ''tats-Unis''\<rparr>]
         = Inr countries \<and>
      Countries_Get countries ''FR'' = Inr (Some \<lparr>Code = ''FR'', Name = ''France''\<rparr>) \<and>
      Countries_Get countries ''ZZ'' = Inr None)"
proof -
  let ?cs = "[\<lparr>Code = ''FR'', Name = ''France''\<rparr>,
              \<lparr>Code = ''US'', Name = [CHR 0xC3, CHR 0x89] @ ''tats-Unis''\<rparr>]"
  have 1: "distinct (map Code ?cs)" by simp
  from country_exact_match [OF 1] obtain countries where
    B: "build Country_Less ?cs = Inr countries"
    and L: "\<And>code. (\<forall>c \<in> set ?cs. Code c = code \<longrightarrow> Countries_Get countries code = Inr (Some c)) \<and>
             ((\<forall>c \<in> set ?cs. Code c \<noteq> code) \<longrightarrow> Countries_Get countries code = Inr None)"
    by blast
  from L [of "''FR''"] have a: "Countries_Get countries ''FR'' =
      Inr (Some \<lparr>Code = ''FR'', Name = ''France''\<rparr>)" by simp
  from L [of "''ZZ''"] have b: "Countries_Get countries ''ZZ'' = Inr None" by simp
  from 1 B a b show ?thesis by blast
qed

end
